theory Spec2Isabelle
  imports Main "HOL-Library.Word"
begin

section \<open>Memory model shared by the three components\<close>

text \<open>
  The library is written with raw pointers, \<open>new\<close> and \<open>delete\<close>. Pointers are modelled
  as \<open>addr option\<close> (\<open>None\<close> is \<open>nullptr\<close>), objects live in typed stores (maps from
  addresses to objects), \<open>new\<close> takes the next unused address and \<open>delete\<close> removes the
  object from its store. Dereferencing an address that holds no object (a null, dangling
  or never allocated pointer) is undefined behaviour in C++; the model makes it the
  explicit result \<open>Inl InvalidAccess\<close>. A modulo by zero is \<open>Inl DivisionByZero\<close>, an
  exception that leaves a thread function is \<open>Inl UncaughtException\<close>.
  Allocation never fails in the model (no \<open>std::bad_alloc\<close>).

  Atomic loads, stores, exchanges and compare-and-swaps are modelled by their effect on
  the store; memory orderings have no counterpart in a sequential execution. An
  execution of several threads is an interleaving of their steps on the one store
  (sequential consistency); every such interleaving is an execution the source allows,
  whatever memory orderings it asks for. \<open>size_t\<close> is a 64-bit word.
\<close>

type_synonym addr = nat
type_synonym size_t = "64 word"

datatype fault = InvalidAccess | DivisionByZero | UncaughtException

definition on_ok :: "fault + 'a \<Rightarrow> ('a \<Rightarrow> fault + 'b) \<Rightarrow> fault + 'b" where
  "on_ok m f = (case m of Inl e \<Rightarrow> Inl e | Inr x \<Rightarrow> f x)"

text \<open>
  \<open>compare_exchange_weak spurious current expected desired\<close> is the compare-and-swap on an
  atomic holding \<open>current\<close>: the result is (success, new content of the atomic, new
  content of \<open>expected\<close>). A failed exchange loads the content into \<open>expected\<close>. The weak
  form may fail although the atomic holds the expected value; \<open>spurious\<close> says whether
  this call does.

  Four places of the source call it. Three are retry loops (\<open>insert\<close> of the map at line
  107, the head path of \<open>erase\<close> at line 168, \<open>dequeue\<close> of the second queue): a failed
  exchange is followed by another attempt with the value just loaded, so that a spurious
  failure repeats the attempt with nothing changed. These loops are written from their
  first attempt that does not fail spuriously (\<open>spurious = False\<close>). The fourth, on the
  predecessor path of \<open>erase\<close> (line 193), is not retried; there the flag is an input of
  the operation.
\<close>

definition compare_exchange_weak :: "bool \<Rightarrow> 'x \<Rightarrow> 'x \<Rightarrow> 'x \<Rightarrow> bool \<times> 'x \<times> 'x" where
  "compare_exchange_weak spurious current expected desired =
     (if current = expected \<and> \<not> spurious then (True, desired, expected)
      else (False, current, current))"


section \<open>LockFreeQueue (include/concurrent/lockfree_queue.hpp)\<close>

record Node =
  data :: "addr option"
  "next" :: "addr option"

text \<open>
  The queue object: its two atomics \<open>head_m\<close> and \<open>tail_m\<close> (the members
  \<^verbatim>\<open>head_\<close> and \<^verbatim>\<open>tail_\<close>), together with the part of the
  heap it owns: the \<open>Node\<close> objects, the \<open>T\<close> objects made by \<open>new T(...)\<close>, and the next
  unused address.
\<close>

record 'a LockFreeQueue =
  nodes :: "addr \<rightharpoonup> Node"
  cells :: "addr \<rightharpoonup> 'a"
  fresh :: addr
  head_m :: addr
  tail_m :: addr

definition allocate_node :: "'a LockFreeQueue \<Rightarrow> addr \<times> 'a LockFreeQueue" where
  "allocate_node q =
     (fresh q, q\<lparr>nodes := (nodes q)(fresh q \<mapsto> \<lparr>data = None, next = None\<rparr>),
                 fresh := Suc (fresh q)\<rparr>)"

definition deallocate_node :: "addr \<Rightarrow> 'a LockFreeQueue \<Rightarrow> fault + 'a LockFreeQueue" where
  "deallocate_node node q =
     (if nodes q node = None then Inl InvalidAccess
      else Inr (q\<lparr>nodes := (nodes q)(node := None)\<rparr>))"

definition new_T :: "'a \<Rightarrow> 'a LockFreeQueue \<Rightarrow> addr \<times> 'a LockFreeQueue" where
  "new_T item q = (fresh q, q\<lparr>cells := (cells q)(fresh q \<mapsto> item), fresh := Suc (fresh q)\<rparr>)"

definition read_T :: "addr \<Rightarrow> 'a LockFreeQueue \<Rightarrow> fault + 'a" where
  "read_T p q = (case cells q p of None \<Rightarrow> Inl InvalidAccess | Some x \<Rightarrow> Inr x)"

definition delete_T :: "addr \<Rightarrow> 'a LockFreeQueue \<Rightarrow> fault + 'a LockFreeQueue" where
  "delete_T p q =
     (if cells q p = None then Inl InvalidAccess
      else Inr (q\<lparr>cells := (cells q)(p := None)\<rparr>))"

definition load_next :: "addr \<Rightarrow> 'a LockFreeQueue \<Rightarrow> fault + addr option" where
  "load_next a q = (case nodes q a of None \<Rightarrow> Inl InvalidAccess | Some n \<Rightarrow> Inr (next n))"

definition load_data :: "addr \<Rightarrow> 'a LockFreeQueue \<Rightarrow> fault + addr option" where
  "load_data a q = (case nodes q a of None \<Rightarrow> Inl InvalidAccess | Some n \<Rightarrow> Inr (data n))"

definition store_next :: "addr \<Rightarrow> addr option \<Rightarrow> 'a LockFreeQueue \<Rightarrow> fault + 'a LockFreeQueue" where
  "store_next a v q =
     (case nodes q a of
        None \<Rightarrow> Inl InvalidAccess
      | Some n \<Rightarrow> Inr (q\<lparr>nodes := (nodes q)(a \<mapsto> n\<lparr>next := v\<rparr>)\<rparr>))"

definition store_data :: "addr \<Rightarrow> addr option \<Rightarrow> 'a LockFreeQueue \<Rightarrow> fault + 'a LockFreeQueue" where
  "store_data a v q =
     (case nodes q a of
        None \<Rightarrow> Inl InvalidAccess
      | Some n \<Rightarrow> Inr (q\<lparr>nodes := (nodes q)(a \<mapsto> n\<lparr>data := v\<rparr>)\<rparr>))"

text \<open>The constructor: one dummy node, to which both \<open>head_m\<close> and \<open>tail_m\<close> point.\<close>

definition LockFreeQueue_ctor :: "'a LockFreeQueue" where
  "LockFreeQueue_ctor =
     (let (dummy, q) = allocate_node
            \<lparr>nodes = Map.empty, cells = Map.empty, fresh = 0, head_m = 0, tail_m = 0\<rparr>
      in q\<lparr>head_m := dummy, tail_m := dummy\<rparr>)"

definition enqueue :: "'a \<Rightarrow> 'a LockFreeQueue \<Rightarrow> fault + (bool \<times> 'a LockFreeQueue)" where
  "enqueue item q0 =
     (let (new_node, q1) = allocate_node q0;
          (data_p, q2) = new_T item q1
      in on_ok (store_data new_node (Some data_p) q2) (\<lambda>q3.
         on_ok (store_next new_node None q3) (\<lambda>q4.
         let prev_tail = tail_m q4;
             q5 = q4\<lparr>tail_m := new_node\<rparr>
         in on_ok (store_next prev_tail (Some new_node) q5) (\<lambda>q6.
            Inr (True, q6)))))"

text \<open>
  \<open>dequeue\<close> of lockfree_queue.hpp: the head is advanced by a plain store and the old
  dummy node is freed at once. The data pointer of the new dummy is left as it is
  (dangling).
\<close>

definition dequeue :: "'a LockFreeQueue \<Rightarrow> fault + ('a option \<times> 'a LockFreeQueue)" where
  "dequeue q =
     (let head = head_m q
      in on_ok (load_next head q) (\<lambda>nxt.
         case nxt of
           None \<Rightarrow> Inr (None, q)
         | Some nx \<Rightarrow>
             on_ok (load_data nx q) (\<lambda>data_p.
             case data_p of
               None \<Rightarrow> Inr (None, q)
             | Some d \<Rightarrow>
                 on_ok (read_T d q) (\<lambda>result.
                 on_ok (delete_T d q) (\<lambda>q1.
                 let q2 = q1\<lparr>head_m := nx\<rparr>
                 in on_ok (deallocate_node head q2) (\<lambda>q3.
                    Inr (Some result, q3)))))))"

text \<open>
  The same \<open>dequeue\<close>, one access to shared memory at a time, for the executions in which
  another thread runs between two of its statements. A call in progress is at one of
  its statements and holds the local variables read so far: \<open>head\<close>, \<open>next\<close>, \<open>data\<close> and
  \<open>result\<close>. \<open>dequeue_step\<close> runs the statement the call is at: the load of \<open>head_m\<close>
  (line 104), the load of \<open>head->next\<close> (line 105), the load of \<open>next->data\<close> (line 111),
  the move out of \<open>*data\<close> (line 117), \<open>delete data\<close> (line 118), the store to \<open>head_m\<close>
  (line 121), \<open>deallocate_node(head)\<close> (line 124). The move is modelled as a read: what
  it leaves in \<open>*data\<close> is not recorded.
\<close>

datatype 'a dequeue_pc =
    DequeueLoadHead
  | DequeueLoadNext addr
  | DequeueLoadData addr addr
  | DequeueMove addr addr addr
  | DequeueDelete addr addr addr 'a
  | DequeueStoreHead addr addr 'a
  | DequeueFree addr 'a
  | DequeueReturn "'a option"

fun dequeue_step :: "'a dequeue_pc \<Rightarrow> 'a LockFreeQueue \<Rightarrow> fault + 'a dequeue_pc \<times> 'a LockFreeQueue" where
  "dequeue_step DequeueLoadHead q = Inr (DequeueLoadNext (head_m q), q)"
| "dequeue_step (DequeueLoadNext head) q =
     on_ok (load_next head q) (\<lambda>nxt.
       case nxt of
         None \<Rightarrow> Inr (DequeueReturn None, q)
       | Some nx \<Rightarrow> Inr (DequeueLoadData head nx, q))"
| "dequeue_step (DequeueLoadData head nx) q =
     on_ok (load_data nx q) (\<lambda>data_p.
       case data_p of
         None \<Rightarrow> Inr (DequeueReturn None, q)
       | Some d \<Rightarrow> Inr (DequeueMove head nx d, q))"
| "dequeue_step (DequeueMove head nx d) q =
     on_ok (read_T d q) (\<lambda>result. Inr (DequeueDelete head nx d result, q))"
| "dequeue_step (DequeueDelete head nx d result) q =
     on_ok (delete_T d q) (\<lambda>q1. Inr (DequeueStoreHead head nx result, q1))"
| "dequeue_step (DequeueStoreHead head nx result) q =
     Inr (DequeueFree head result, q\<lparr>head_m := nx\<rparr>)"
| "dequeue_step (DequeueFree head result) q =
     on_ok (deallocate_node head q) (\<lambda>q3. Inr (DequeueReturn (Some result), q3))"
| "dequeue_step (DequeueReturn r) q = Inr (DequeueReturn r, q)"

text \<open>\<open>dequeue_steps n\<close> runs \<open>n\<close> statements of one call with no other thread in between.\<close>

fun dequeue_steps :: "nat \<Rightarrow> 'a dequeue_pc \<Rightarrow> 'a LockFreeQueue \<Rightarrow> fault + 'a dequeue_pc \<times> 'a LockFreeQueue" where
  "dequeue_steps 0 pc q = Inr (pc, q)"
| "dequeue_steps (Suc n) pc q = on_ok (dequeue_step pc q) (\<lambda>(pc', q'). dequeue_steps n pc' q')"

text \<open>
  \<open>dequeue\<close> of the second copy of the class (the one that follows ThreadPool in
  thread_pool.hpp): a retry loop around a compare-and-swap on \<open>head_m\<close>; the data pointer
  of the new dummy is cleared and no node is freed. The loop is a recursion that may
  not return, hence the \<open>option\<close>.
\<close>

partial_function (option) dequeue_cas ::
  "'a LockFreeQueue \<Rightarrow> (fault + ('a option \<times> 'a LockFreeQueue)) option" where
  "dequeue_cas q =
     (let head = head_m q
      in case load_next head q of
           Inl e \<Rightarrow> Some (Inl e)
         | Inr None \<Rightarrow> Some (Inr (None, q))
         | Inr (Some nx) \<Rightarrow>
             (case load_data nx q of
                Inl e \<Rightarrow> Some (Inl e)
              | Inr None \<Rightarrow> Some (Inr (None, q))
              | Inr (Some d) \<Rightarrow>
                  (let (ok, new_head, head') = compare_exchange_weak False (head_m q) head nx
                   in if ok
                      then Some (let q1 = q\<lparr>head_m := new_head\<rparr>
                                 in on_ok (read_T d q1) (\<lambda>result.
                                    on_ok (delete_T d q1) (\<lambda>q2.
                                    on_ok (store_data nx None q2) (\<lambda>q3.
                                    Inr (Some result, q3)))))
                      else dequeue_cas q)))"

definition empty :: "'a LockFreeQueue \<Rightarrow> fault + bool" where
  "empty q = on_ok (load_next (head_m q) q) (\<lambda>nxt. Inr (nxt = None))"

partial_function (option) approximate_size_loop ::
  "'a LockFreeQueue \<Rightarrow> addr option \<Rightarrow> size_t \<Rightarrow> (fault + size_t) option" where
  "approximate_size_loop q current count =
     (case current of
        None \<Rightarrow> Some (Inr count)
      | Some c \<Rightarrow>
          (case load_next c q of
             Inl e \<Rightarrow> Some (Inl e)
           | Inr None \<Rightarrow> approximate_size_loop q None count
           | Inr (Some n) \<Rightarrow>
               (case load_data n q of
                  Inl e \<Rightarrow> Some (Inl e)
                | Inr d \<Rightarrow>
                    approximate_size_loop q (Some n)
                      (if d \<noteq> None then count + 1 else count))))"

definition approximate_size :: "'a LockFreeQueue \<Rightarrow> (fault + size_t) option" where
  "approximate_size q = approximate_size_loop q (Some (head_m q)) 0"

subsection \<open>Single-threaded runs of queue operations\<close>

text \<open>
  A single-threaded client is a list of calls. \<open>run_ops\<close> performs them in order on one
  object and collects what each call returned; a fault stops the run, and a call that
  does not return makes the run \<open>None\<close>. \<open>apply_op\<close> dispatches to the member functions
  of lockfree_queue.hpp, \<open>apply_op_cas\<close> to those of the second copy of the class, whose
  \<open>enqueue\<close>, \<open>empty\<close> and \<open>approximate_size\<close> have the same text and whose \<open>dequeue\<close> is
  \<open>dequeue_cas\<close>.
\<close>

datatype 'a queue_op = Enqueue 'a | Dequeue | Empty | ApproximateSize

datatype 'a queue_result = Enqueued bool | Dequeued "'a option" | IsEmpty bool | Size size_t

fun run_ops :: "('op \<Rightarrow> 's \<Rightarrow> (fault + 'r \<times> 's) option) \<Rightarrow> 'op list \<Rightarrow> 's \<Rightarrow>
    (fault + 'r list \<times> 's) option" where
  "run_ops f [] s = Some (Inr ([], s))"
| "run_ops f (op # ops) s =
     (case f op s of
        None \<Rightarrow> None
      | Some (Inl e) \<Rightarrow> Some (Inl e)
      | Some (Inr (r, s')) \<Rightarrow>
          (case run_ops f ops s' of
             None \<Rightarrow> None
           | Some (Inl e) \<Rightarrow> Some (Inl e)
           | Some (Inr (rs, s'')) \<Rightarrow> Some (Inr (r # rs, s''))))"

fun apply_op :: "'a queue_op \<Rightarrow> 'a LockFreeQueue \<Rightarrow>
    (fault + 'a queue_result \<times> 'a LockFreeQueue) option" where
  "apply_op (Enqueue x) q = Some (on_ok (enqueue x q) (\<lambda>(r, q'). Inr (Enqueued r, q')))"
| "apply_op Dequeue q = Some (on_ok (dequeue q) (\<lambda>(r, q'). Inr (Dequeued r, q')))"
| "apply_op Empty q = Some (on_ok (empty q) (\<lambda>r. Inr (IsEmpty r, q)))"
| "apply_op ApproximateSize q =
     map_option (\<lambda>m. on_ok m (\<lambda>r. Inr (Size r, q))) (approximate_size q)"

fun apply_op_cas :: "'a queue_op \<Rightarrow> 'a LockFreeQueue \<Rightarrow>
    (fault + 'a queue_result \<times> 'a LockFreeQueue) option" where
  "apply_op_cas (Enqueue x) q = Some (on_ok (enqueue x q) (\<lambda>(r, q'). Inr (Enqueued r, q')))"
| "apply_op_cas Dequeue q =
     map_option (\<lambda>m. on_ok m (\<lambda>(r, q'). Inr (Dequeued r, q'))) (dequeue_cas q)"
| "apply_op_cas Empty q = Some (on_ok (empty q) (\<lambda>r. Inr (IsEmpty r, q)))"
| "apply_op_cas ApproximateSize q =
     map_option (\<lambda>m. on_ok m (\<lambda>r. Inr (Size r, q))) (approximate_size q)"

text \<open>
  The sequential FIFO queue on lists, the reference the two implementations are compared
  with: \<open>enqueue\<close> appends at the back and returns true, \<open>dequeue\<close> takes from the front
  and returns nothing on the empty list, \<open>empty\<close> and \<open>approximate_size\<close> report the
  list.
\<close>

fun fifo_op :: "'a queue_op \<Rightarrow> 'a list \<Rightarrow> 'a queue_result \<times> 'a list" where
  "fifo_op (Enqueue x) xs = (Enqueued True, xs @ [x])"
| "fifo_op Dequeue [] = (Dequeued None, [])"
| "fifo_op Dequeue (x # xs) = (Dequeued (Some x), xs)"
| "fifo_op Empty xs = (IsEmpty (xs = []), xs)"
| "fifo_op ApproximateSize xs = (Size (of_nat (length xs)), xs)"

fun fifo_run :: "'a queue_op list \<Rightarrow> 'a list \<Rightarrow> 'a queue_result list \<times> 'a list" where
  "fifo_run [] xs = ([], xs)"
| "fifo_run (op # ops) xs =
     (let (r, ys) = fifo_op op xs; (rs, zs) = fifo_run ops ys in (r # rs, zs))"

text \<open>
  What a client can see of the order: the values it enqueued, in the order of the calls,
  and the values its \<open>dequeue\<close> calls returned, in the order of the calls.
\<close>

fun enqueued_values :: "'a queue_op list \<Rightarrow> 'a list" where
  "enqueued_values [] = []"
| "enqueued_values (Enqueue x # ops) = x # enqueued_values ops"
| "enqueued_values (_ # ops) = enqueued_values ops"

fun dequeued_values :: "'a queue_result list \<Rightarrow> 'a list" where
  "dequeued_values [] = []"
| "dequeued_values (Dequeued (Some x) # rs) = x # dequeued_values rs"
| "dequeued_values (_ # rs) = dequeued_values rs"

abbreviation (input) qvals :: "(addr \<times> addr \<times> 'a) list \<Rightarrow> 'a list" where
  "qvals ts \<equiv> map (\<lambda>t. snd (snd t)) ts"

subsection \<open>Representation invariant of the queue\<close>

text \<open>
  \<open>qchain q a ts\<close>: following the \<open>next\<close> pointers from node \<open>a\<close> visits the nodes listed in
  \<open>ts\<close> (node address, address of its \<open>T\<close> object, the value stored there) and ends in
  the node \<open>tail_m\<close> points to. \<open>qinv\<close> adds that the nodes and the \<open>T\<close> objects are pairwise
  distinct and were allocated.
\<close>

primrec qchain :: "'a LockFreeQueue \<Rightarrow> addr \<Rightarrow> (addr \<times> addr \<times> 'a) list \<Rightarrow> bool" where
  "qchain q a [] = (load_next a q = Inr None \<and> tail_m q = a)"
| "qchain q a (t # ts) =
     (load_next a q = Inr (Some (fst t)) \<and> load_data (fst t) q = Inr (Some (fst (snd t))) \<and>
      read_T (fst (snd t)) q = Inr (snd (snd t)) \<and> qchain q (fst t) ts)"

definition qinv :: "'a LockFreeQueue \<Rightarrow> (addr \<times> addr \<times> 'a) list \<Rightarrow> bool" where
  "qinv q ts \<longleftrightarrow>
     qchain q (head_m q) ts \<and> distinct (head_m q # map fst ts) \<and>
     distinct (map (fst \<circ> snd) ts) \<and>
     (\<forall>a \<in> set (head_m q # map fst ts). a < fresh q) \<and>
     (\<forall>p \<in> set (map (fst \<circ> snd) ts). p < fresh q)"

section \<open>LockFreeHashMap (include/concurrent/lockfree_hashmap.hpp)\<close>

text \<open>
  \<open>struct Node\<close> of the map: the key, the atomic pointer to the \<open>Value\<close> object, the
  atomic link to the next node of the bucket and the deletion mark.
\<close>

record 'k HashNode =
  key :: 'k
  "value" :: "addr option"
  next_hm :: "addr option"
  marked :: bool

record Bucket =
  head :: "addr option"

text \<open>
  The map object: the members \<^verbatim>\<open>buckets_\<close>, \<^verbatim>\<open>size_\<close> and \<^verbatim>\<open>hasher_\<close>, together with the
  part of the heap it owns: the nodes, the \<open>Value\<close> objects and the next unused address.
\<close>

record ('k, 'v) LockFreeHashMap =
  buckets_m :: "Bucket list"
  size_m :: size_t
  hasher_m :: "'k \<Rightarrow> size_t"
  hnodes :: "addr \<rightharpoonup> 'k HashNode"
  vals :: "addr \<rightharpoonup> 'v"
  hfresh :: addr

text \<open>The constructor makes \<open>bucket_count\<close> buckets with null heads; it has no check.\<close>

definition LockFreeHashMap_ctor :: "size_t \<Rightarrow> ('k \<Rightarrow> size_t) \<Rightarrow> ('k, 'v) LockFreeHashMap" where
  "LockFreeHashMap_ctor bucket_count hash =
     \<lparr>buckets_m = replicate (unat bucket_count) \<lparr>head = None\<rparr>, size_m = 0, hasher_m = hash,
      hnodes = Map.empty, vals = Map.empty, hfresh = 0\<rparr>"

text \<open>\<^verbatim>\<open>buckets_.size()\<close>, a \<open>size_t\<close>.\<close>

definition buckets_size :: "('k, 'v) LockFreeHashMap \<Rightarrow> size_t" where
  "buckets_size m = of_nat (length (buckets_m m))"

definition bucket_index :: "('k, 'v) LockFreeHashMap \<Rightarrow> 'k \<Rightarrow> fault + size_t" where
  "bucket_index m k =
     (if buckets_size m = 0 then Inl DivisionByZero
      else Inr (hasher_m m k mod buckets_size m))"

text \<open>
  \<^verbatim>\<open>buckets_[bucket_index(key)]\<close>: the unchecked \<open>operator[]\<close> of the vector. The
  reference to the bucket is its position in the vector.
\<close>

definition bucket_ref :: "('k, 'v) LockFreeHashMap \<Rightarrow> 'k \<Rightarrow> fault + nat" where
  "bucket_ref m k =
     on_ok (bucket_index m k) (\<lambda>i.
       if unat i < length (buckets_m m) then Inr (unat i) else Inl InvalidAccess)"

definition load_head :: "nat \<Rightarrow> ('k, 'v) LockFreeHashMap \<Rightarrow> addr option" where
  "load_head b m = head (buckets_m m ! b)"

definition store_head :: "nat \<Rightarrow> addr option \<Rightarrow> ('k, 'v) LockFreeHashMap \<Rightarrow> ('k, 'v) LockFreeHashMap" where
  "store_head b p m = m\<lparr>buckets_m := (buckets_m m)[b := (buckets_m m ! b)\<lparr>head := p\<rparr>]\<rparr>"

definition load_node :: "addr \<Rightarrow> ('k, 'v) LockFreeHashMap \<Rightarrow> fault + 'k HashNode" where
  "load_node a m = (case hnodes m a of None \<Rightarrow> Inl InvalidAccess | Some n \<Rightarrow> Inr n)"

definition store_node ::
  "addr \<Rightarrow> ('k HashNode \<Rightarrow> 'k HashNode) \<Rightarrow> ('k, 'v) LockFreeHashMap \<Rightarrow> fault + ('k, 'v) LockFreeHashMap" where
  "store_node a f m =
     (case hnodes m a of
        None \<Rightarrow> Inl InvalidAccess
      | Some n \<Rightarrow> Inr (m\<lparr>hnodes := (hnodes m)(a \<mapsto> f n)\<rparr>))"

definition new_Value :: "'v \<Rightarrow> ('k, 'v) LockFreeHashMap \<Rightarrow> addr \<times> ('k, 'v) LockFreeHashMap" where
  "new_Value v m = (hfresh m, m\<lparr>vals := (vals m)(hfresh m \<mapsto> v), hfresh := Suc (hfresh m)\<rparr>)"

definition read_Value :: "addr \<Rightarrow> ('k, 'v) LockFreeHashMap \<Rightarrow> fault + 'v" where
  "read_Value p m = (case vals m p of None \<Rightarrow> Inl InvalidAccess | Some v \<Rightarrow> Inr v)"

text \<open>\<open>delete\<close> of a \<open>Value*\<close>; deleting a null pointer does nothing.\<close>

definition delete_Value ::
  "addr option \<Rightarrow> ('k, 'v) LockFreeHashMap \<Rightarrow> fault + ('k, 'v) LockFreeHashMap" where
  "delete_Value p m =
     (case p of
        None \<Rightarrow> Inr m
      | Some a \<Rightarrow> if vals m a = None then Inl InvalidAccess
                  else Inr (m\<lparr>vals := (vals m)(a := None)\<rparr>))"

text \<open>
  \<^verbatim>\<open>new Node(key, value)\<close>: storage for the node, then the constructor, which makes
  the \<open>Value\<close> object.
\<close>

definition new_Node :: "'k \<Rightarrow> 'v \<Rightarrow> ('k, 'v) LockFreeHashMap \<Rightarrow> addr \<times> ('k, 'v) LockFreeHashMap" where
  "new_Node k v m0 =
     (let a = hfresh m0;
          m1 = m0\<lparr>hfresh := Suc (hfresh m0)\<rparr>;
          (p, m2) = new_Value v m1
      in (a, m2\<lparr>hnodes := (hnodes m2)(a \<mapsto>
                  \<lparr>key = k, value = Some p, next_hm = None, marked = False\<rparr>)\<rparr>))"

text \<open>\<^verbatim>\<open>delete node\<close>: the destructor deletes the value if the pointer is not null.\<close>

definition delete_Node :: "addr \<Rightarrow> ('k, 'v) LockFreeHashMap \<Rightarrow> fault + ('k, 'v) LockFreeHashMap" where
  "delete_Node a m =
     on_ok (load_node a m) (\<lambda>n.
     on_ok (delete_Value (value n) m) (\<lambda>m1.
     Inr (m1\<lparr>hnodes := (hnodes m1)(a := None)\<rparr>)))"

partial_function (option) find_node_loop ::
  "('k, 'v) LockFreeHashMap \<Rightarrow> addr option \<Rightarrow> 'k \<Rightarrow> (fault + addr option) option" where
  "find_node_loop m current k =
     (case current of
        None \<Rightarrow> Some (Inr None)
      | Some c \<Rightarrow>
          (case load_node c m of
             Inl e \<Rightarrow> Some (Inl e)
           | Inr n \<Rightarrow>
               if \<not> marked n \<and> key n = k then Some (Inr (Some c))
               else find_node_loop m (next_hm n) k))"

definition find_node :: "('k, 'v) LockFreeHashMap \<Rightarrow> nat \<Rightarrow> 'k \<Rightarrow> (fault + addr option) option" where
  "find_node m bucket k = find_node_loop m (load_head bucket m) k"

subsection \<open>insert\<close>

text \<open>
  \<open>insert\<close> is written as its three parts, so that the interleaving of two calls can be
  stated later: the lookup (lines 89 to 92), the update of an existing node (lines 95 to
  98), and the linking of a new node at the head of the bucket (lines 102 to 115).
\<close>

definition insert_lookup ::
  "'k \<Rightarrow> ('k, 'v) LockFreeHashMap \<Rightarrow> (fault + nat \<times> addr option) option" where
  "insert_lookup k m =
     (case bucket_ref m k of
        Inl e \<Rightarrow> Some (Inl e)
      | Inr bucket \<Rightarrow>
          map_option (\<lambda>r. on_ok r (\<lambda>existing. Inr (bucket, existing))) (find_node m bucket k))"

definition insert_update ::
  "addr \<Rightarrow> 'v \<Rightarrow> ('k, 'v) LockFreeHashMap \<Rightarrow> fault + bool \<times> ('k, 'v) LockFreeHashMap" where
  "insert_update existing v m0 =
     (let (new_val, m1) = new_Value v m0
      in on_ok (load_node existing m1) (\<lambda>n.
         let old_val = value n
         in on_ok (store_node existing (\<lambda>n. n\<lparr>value := Some new_val\<rparr>) m1) (\<lambda>m2.
            on_ok (delete_Value old_val m2) (\<lambda>m3.
            Inr (False, m3)))))"

partial_function (option) insert_cas_loop ::
  "('k, 'v) LockFreeHashMap \<Rightarrow> nat \<Rightarrow> addr option \<Rightarrow> addr \<Rightarrow>
   (fault + ('k, 'v) LockFreeHashMap) option" where
  "insert_cas_loop m bucket head_v new_node =
     (let (ok, cur, head') = compare_exchange_weak False (load_head bucket m) head_v (Some new_node);
          m1 = store_head bucket cur m
      in if ok then Some (Inr m1)
         else (case store_node new_node (\<lambda>n. n\<lparr>next_hm := head'\<rparr>) m1 of
                 Inl e \<Rightarrow> Some (Inl e)
               | Inr m2 \<Rightarrow> insert_cas_loop m2 bucket head' new_node))"

definition insert_link ::
  "nat \<Rightarrow> 'k \<Rightarrow> 'v \<Rightarrow> ('k, 'v) LockFreeHashMap \<Rightarrow>
   (fault + bool \<times> ('k, 'v) LockFreeHashMap) option" where
  "insert_link bucket k v m0 =
     (let (new_node, m1) = new_Node k v m0;
          head_v = load_head bucket m1
      in case store_node new_node (\<lambda>n. n\<lparr>next_hm := head_v\<rparr>) m1 of
           Inl e \<Rightarrow> Some (Inl e)
         | Inr m2 \<Rightarrow>
             map_option (\<lambda>r. on_ok r (\<lambda>m3. Inr (True, m3\<lparr>size_m := size_m m3 + 1\<rparr>)))
               (insert_cas_loop m2 bucket head_v new_node))"

definition insert_hm ::
  "'k \<Rightarrow> 'v \<Rightarrow> ('k, 'v) LockFreeHashMap \<Rightarrow> (fault + bool \<times> ('k, 'v) LockFreeHashMap) option" where
  "insert_hm k v m =
     (case insert_lookup k m of
        None \<Rightarrow> None
      | Some (Inl e) \<Rightarrow> Some (Inl e)
      | Some (Inr (bucket, Some existing)) \<Rightarrow> Some (insert_update existing v m)
      | Some (Inr (bucket, None)) \<Rightarrow> insert_link bucket k v m)"

subsection \<open>get, contains, size, empty\<close>

definition get :: "'k \<Rightarrow> ('k, 'v) LockFreeHashMap \<Rightarrow> (fault + 'v option) option" where
  "get k m =
     (case bucket_ref m k of
        Inl e \<Rightarrow> Some (Inl e)
      | Inr bucket \<Rightarrow>
          map_option (\<lambda>r. on_ok r (\<lambda>node.
              case node of
                None \<Rightarrow> Inr None
              | Some a \<Rightarrow>
                  on_ok (load_node a m) (\<lambda>n.
                    case value n of
                      None \<Rightarrow> Inr None
                    | Some p \<Rightarrow> on_ok (read_Value p m) (\<lambda>v. Inr (Some v)))))
            (find_node m bucket k))"

definition contains :: "'k \<Rightarrow> ('k, 'v) LockFreeHashMap \<Rightarrow> (fault + bool) option" where
  "contains k m =
     (case bucket_ref m k of
        Inl e \<Rightarrow> Some (Inl e)
      | Inr bucket \<Rightarrow>
          map_option (\<lambda>r. on_ok r (\<lambda>node. Inr (node \<noteq> None))) (find_node m bucket k))"

definition size_hm :: "('k, 'v) LockFreeHashMap \<Rightarrow> size_t" where
  "size_hm m = size_m m"

definition empty_hm :: "('k, 'v) LockFreeHashMap \<Rightarrow> bool" where
  "empty_hm m = (size_hm m = 0)"

subsection \<open>erase\<close>

text \<open>
  The loop that swings the bucket head past the node (lines 168 to 178). The \<open>continue\<close>
  in its body goes back to the test of this loop, not to the outer one.
\<close>

partial_function (option) erase_head_cas_loop ::
  "('k, 'v) LockFreeHashMap \<Rightarrow> nat \<Rightarrow> addr \<Rightarrow> addr option \<Rightarrow> addr option \<Rightarrow>
   (fault + ('k, 'v) LockFreeHashMap) option" where
  "erase_head_cas_loop m bucket node head_v next_v =
     (let (ok, cur, head') = compare_exchange_weak False (load_head bucket m) head_v next_v;
          m1 = store_head bucket cur m
      in if ok then Some (Inr m1)
         else if head' \<noteq> Some node then erase_head_cas_loop m1 bucket node head' next_v
         else (case load_node node m1 of
                 Inl e \<Rightarrow> Some (Inl e)
               | Inr n \<Rightarrow> erase_head_cas_loop m1 bucket node head' (next_hm n)))"

text \<open>
  The search for the predecessor (lines 181 to 201); the result is the flag \<open>removed\<close>.
  The loop ends with the exchange, whether it succeeds (\<open>removed = true\<close>) or fails
  (\<open>break\<close>), so that one pass calls \<open>compare_exchange_weak\<close> at most once; \<open>spurious\<close> says
  whether that call fails spuriously.
\<close>

partial_function (option) erase_unlink_loop ::
  "bool \<Rightarrow> ('k, 'v) LockFreeHashMap \<Rightarrow> addr \<Rightarrow> addr option \<Rightarrow>
   (fault + bool \<times> ('k, 'v) LockFreeHashMap) option" where
  "erase_unlink_loop spurious m node prev =
     (case prev of
        None \<Rightarrow> Some (Inr (False, m))
      | Some pv \<Rightarrow>
          (case load_node pv m of
             Inl e \<Rightarrow> Some (Inl e)
           | Inr pn \<Rightarrow>
               let next_v = next_hm pn
               in if next_v = Some node
                  then (case load_node node m of
                          Inl e \<Rightarrow> Some (Inl e)
                        | Inr n \<Rightarrow>
                            let (ok, cur, next') =
                                  compare_exchange_weak spurious (next_hm pn) next_v (next_hm n)
                            in Some (on_ok (store_node pv (\<lambda>pn. pn\<lparr>next_hm := cur\<rparr>) m) (\<lambda>m1.
                                     Inr (ok, m1))))
                  else if next_v = None then Some (Inr (False, m))
                  else erase_unlink_loop spurious m node next_v))"

text \<open>Lines 210 to 220: the counter, the value, the node.\<close>

definition erase_finish ::
  "addr \<Rightarrow> ('k, 'v) LockFreeHashMap \<Rightarrow> fault + bool \<times> ('k, 'v) LockFreeHashMap" where
  "erase_finish node m0 =
     (let m1 = m0\<lparr>size_m := size_m m0 - 1\<rparr>
      in on_ok (load_node node m1) (\<lambda>n.
         let val = value n
         in on_ok (store_node node (\<lambda>n. n\<lparr>value := None\<rparr>) m1) (\<lambda>m2.
            on_ok (delete_Value val m2) (\<lambda>m3.
            on_ok (delete_Node node m3) (\<lambda>m4.
            Inr (True, m4))))))"

text \<open>
  The outer loop (lines 147 to 221). \<open>sp\<close> lists, for the passes through the search for
  the predecessor in the order they are made, whether the exchange of that pass fails
  spuriously; when the list is used up no further exchange does. After a failed exchange
  the loop starts again with \<open>find_node\<close>, on a chain in which the node is still linked
  and already marked.
\<close>

partial_function (option) erase_loop ::
  "bool list \<Rightarrow> ('k, 'v) LockFreeHashMap \<Rightarrow> nat \<Rightarrow> 'k \<Rightarrow>
   (fault + bool \<times> ('k, 'v) LockFreeHashMap) option" where
  "erase_loop sp m bucket k =
     (case find_node m bucket k of
        None \<Rightarrow> None
      | Some (Inl e) \<Rightarrow> Some (Inl e)
      | Some (Inr None) \<Rightarrow> Some (Inr (False, m))
      | Some (Inr (Some node)) \<Rightarrow>
          (case load_node node m of
             Inl e \<Rightarrow> Some (Inl e)
           | Inr n \<Rightarrow>
               let was_marked = marked n
               in case store_node node (\<lambda>n. n\<lparr>marked := True\<rparr>) m of
                    Inl e \<Rightarrow> Some (Inl e)
                  | Inr m1 \<Rightarrow>
                      if was_marked then erase_loop sp m1 bucket k
                      else
                        let head_v = load_head bucket m1
                        in if head_v = Some node
                           then (case load_node node m1 of
                                   Inl e \<Rightarrow> Some (Inl e)
                                 | Inr n1 \<Rightarrow>
                                     map_option (\<lambda>r. on_ok r (erase_finish node))
                                       (erase_head_cas_loop m1 bucket node head_v (next_hm n1)))
                           else (case erase_unlink_loop (sp \<noteq> [] \<and> hd sp) m1 node head_v of
                                   None \<Rightarrow> None
                                 | Some (Inl e) \<Rightarrow> Some (Inl e)
                                 | Some (Inr (removed, m2)) \<Rightarrow>
                                     if \<not> removed then erase_loop (tl sp) m2 bucket k
                                     else Some (erase_finish node m2))))"

text \<open>
  \<open>erase sp k\<close> is the call \<open>erase(k)\<close> in which the exchanges on the predecessor path fail
  spuriously as \<open>sp\<close> says; \<open>erase [] k\<close> is the call in which none does.
\<close>

definition erase ::
  "bool list \<Rightarrow> 'k \<Rightarrow> ('k, 'v) LockFreeHashMap \<Rightarrow>
   (fault + bool \<times> ('k, 'v) LockFreeHashMap) option" where
  "erase sp k m =
     (case bucket_ref m k of
        Inl e \<Rightarrow> Some (Inl e)
      | Inr bucket \<Rightarrow> erase_loop sp m bucket k)"


subsection \<open>Single-threaded runs of map operations\<close>

text \<open>
  The calls a single-threaded client can make, what they return, and the dispatch to the
  member functions. A run is \<open>run_ops apply_map_op\<close>; its \<open>erase\<close> calls are \<open>erase []\<close>, the
  calls in which no exchange fails spuriously. A call in which one does is written
  \<open>erase sp\<close> where it is needed.
\<close>

datatype ('k, 'v) map_op = Insert 'k 'v | Get 'k | Erase 'k | Contains 'k | MapSize | MapEmpty

datatype 'v map_result =
  Inserted bool | Got "'v option" | Erased bool | Found bool | MapSizeIs size_t | MapEmptyIs bool

fun apply_map_op :: "('k, 'v) map_op \<Rightarrow> ('k, 'v) LockFreeHashMap \<Rightarrow>
    (fault + 'v map_result \<times> ('k, 'v) LockFreeHashMap) option" where
  "apply_map_op (Insert k v) m =
     map_option (\<lambda>r. on_ok r (\<lambda>(b, m'). Inr (Inserted b, m'))) (insert_hm k v m)"
| "apply_map_op (Get k) m = map_option (\<lambda>r. on_ok r (\<lambda>x. Inr (Got x, m))) (get k m)"
| "apply_map_op (Erase k) m =
     map_option (\<lambda>r. on_ok r (\<lambda>(b, m'). Inr (Erased b, m'))) (erase [] k m)"
| "apply_map_op (Contains k) m =
     map_option (\<lambda>r. on_ok r (\<lambda>b. Inr (Found b, m))) (contains k m)"
| "apply_map_op MapSize m = Some (Inr (MapSizeIs (size_hm m), m))"
| "apply_map_op MapEmpty m = Some (Inr (MapEmptyIs (empty_hm m), m))"

text \<open>
  The live keys of a call sequence: a key is live when it was inserted and not erased
  since its last insert. \<open>live_keys\<close> reads them off the list of calls, from left to
  right.
\<close>

fun live_step :: "'k set \<Rightarrow> ('k, 'v) map_op \<Rightarrow> 'k set" where
  "live_step S (Insert k v) = insert k S"
| "live_step S (Erase k) = S - {k}"
| "live_step S _ = S"

definition live_keys :: "('k, 'v) map_op list \<Rightarrow> 'k set" where
  "live_keys ops = foldl live_step {} ops"

text \<open>
  The sequential map on \<open>'k \<rightharpoonup> 'v\<close>, the reference the implementation is compared with
  in the proofs.
\<close>

fun model_op :: "('k, 'v) map_op \<Rightarrow> ('k \<rightharpoonup> 'v) \<Rightarrow> 'v map_result \<times> ('k \<rightharpoonup> 'v)" where
  "model_op (Insert k v) A = (Inserted (A k = None), A(k \<mapsto> v))"
| "model_op (Get k) A = (Got (A k), A)"
| "model_op (Erase k) A = (Erased (A k \<noteq> None), A(k := None))"
| "model_op (Contains k) A = (Found (A k \<noteq> None), A)"
| "model_op MapSize A = (MapSizeIs (of_nat (card (dom A))), A)"
| "model_op MapEmpty A = (MapEmptyIs ((of_nat (card (dom A)) :: size_t) = 0), A)"

fun model_run :: "('k, 'v) map_op list \<Rightarrow> ('k \<rightharpoonup> 'v) \<Rightarrow> 'v map_result list \<times> ('k \<rightharpoonup> 'v)" where
  "model_run [] A = ([], A)"
| "model_run (op # ops) A =
     (let (r, B) = model_op op A; (rs, C) = model_run ops B in (r # rs, C))"

subsection \<open>Representation invariant of the map\<close>

text \<open>
  An \<open>entry\<close> names one live node: its address, its key, the address of its \<open>Value\<close>
  object and the value stored there. \<open>hseg m p es r\<close>: following the links from pointer
  \<open>p\<close> visits the unmarked nodes listed in \<open>es\<close> and arrives at pointer \<open>r\<close>. \<open>hinv m ess\<close>:
  bucket \<open>b\<close> holds the chain \<open>ess ! b\<close>, every key sits in the bucket its hash selects,
  no key occurs twice in a chain, no two nodes share a \<open>Value\<close> object, and \<^verbatim>\<open>size_\<close> is
  the number of keys. \<open>alook\<close> is the map from keys to values that the chains represent.
\<close>

datatype ('k, 'v) entry = Entry (e_addr: addr) (e_key: 'k) (e_vaddr: addr) (e_val: 'v)

definition entry_at :: "('k, 'v) LockFreeHashMap \<Rightarrow> ('k, 'v) entry \<Rightarrow> 'k HashNode \<Rightarrow> bool" where
  "entry_at m e n \<longleftrightarrow>
     key n = e_key e \<and> value n = Some (e_vaddr e) \<and> \<not> marked n \<and>
     read_Value (e_vaddr e) m = Inr (e_val e)"

primrec hseg :: "('k, 'v) LockFreeHashMap \<Rightarrow> addr option \<Rightarrow> ('k, 'v) entry list \<Rightarrow> addr option \<Rightarrow> bool" where
  "hseg m p [] r = (p = r)"
| "hseg m p (e # es) r =
     (p = Some (e_addr e) \<and>
      (case load_node (e_addr e) m of
         Inl _ \<Rightarrow> False
       | Inr n \<Rightarrow> entry_at m e n \<and> hseg m (next_hm n) es r))"

definition hentries :: "('k, 'v) entry list list \<Rightarrow> ('k, 'v) entry set" where
  "hentries ess = {e. \<exists>b < length ess. e \<in> set (ess ! b)}"

definition hkeys :: "('k, 'v) entry list list \<Rightarrow> 'k set" where
  "hkeys ess = e_key ` hentries ess"

definition hinv :: "('k, 'v) LockFreeHashMap \<Rightarrow> ('k, 'v) entry list list \<Rightarrow> bool" where
  "hinv m ess \<longleftrightarrow>
     length ess = length (buckets_m m) \<and> 0 < length ess \<and> length ess < 2 ^ 64 \<and>
     (\<forall>b < length ess. hseg m (load_head b m) (ess ! b) None) \<and>
     (\<forall>b < length ess. \<forall>e \<in> set (ess ! b). bucket_ref m (e_key e) = Inr b) \<and>
     (\<forall>b < length ess. distinct (map e_key (ess ! b))) \<and>
     inj_on e_vaddr (hentries ess) \<and>
     (\<forall>e \<in> hentries ess. e_addr e < hfresh m \<and> e_vaddr e < hfresh m) \<and>
     size_m m = of_nat (card (hkeys ess))"

definition alook :: "('k, 'v) LockFreeHashMap \<Rightarrow> ('k, 'v) entry list list \<Rightarrow> 'k \<rightharpoonup> 'v" where
  "alook m ess k =
     (case bucket_ref m k of
        Inl _ \<Rightarrow> None
      | Inr b \<Rightarrow> map_option e_val (find (\<lambda>e. e_key e = k) (ess ! b)))"

definition hrep :: "('k, 'v) LockFreeHashMap \<Rightarrow> ('k \<rightharpoonup> 'v) \<Rightarrow> bool" where
  "hrep m A \<longleftrightarrow> (\<exists>ess. hinv m ess \<and> alook m ess = A)"

subsection \<open>Two threads inside insert\<close>

text \<open>
  A call of \<open>insert\<close> in flight is at one of three places: before the lookup, between
  the lookup and the write (holding the bucket and the pointer \<open>find_node\<close> returned), or
  returned. \<open>insert_step\<close> runs the next part of the call on the shared map;
  \<open>run_inserts\<close> runs the calls of several threads in the order a schedule gives, each
  entry of the schedule naming the thread that moves. The parts are those of
  \<open>insert_hm\<close>; the atomic operations inside one part are not interleaved with the other
  threads, which only removes behaviours.
\<close>

datatype ('k, 'v) insert_call =
  InsertStart 'k 'v | InsertLooked 'k 'v nat "addr option" | InsertReturned bool

fun insert_step :: "('k, 'v) insert_call \<Rightarrow> ('k, 'v) LockFreeHashMap \<Rightarrow>
    (fault + ('k, 'v) insert_call \<times> ('k, 'v) LockFreeHashMap) option" where
  "insert_step (InsertStart k v) m =
     map_option (\<lambda>r. on_ok r (\<lambda>(bucket, existing). Inr (InsertLooked k v bucket existing, m)))
       (insert_lookup k m)"
| "insert_step (InsertLooked k v bucket (Some existing)) m =
     Some (on_ok (insert_update existing v m) (\<lambda>(r, m'). Inr (InsertReturned r, m')))"
| "insert_step (InsertLooked k v bucket None) m =
     map_option (\<lambda>r. on_ok r (\<lambda>(r, m'). Inr (InsertReturned r, m'))) (insert_link bucket k v m)"
| "insert_step (InsertReturned r) m = Some (Inr (InsertReturned r, m))"

fun run_inserts :: "nat list \<Rightarrow> ('k, 'v) insert_call list \<Rightarrow> ('k, 'v) LockFreeHashMap \<Rightarrow>
    (fault + ('k, 'v) insert_call list \<times> ('k, 'v) LockFreeHashMap) option" where
  "run_inserts [] calls m = Some (Inr (calls, m))"
| "run_inserts (t # ts) calls m =
     (if t < length calls
      then (case insert_step (calls ! t) m of
              None \<Rightarrow> None
            | Some (Inl e) \<Rightarrow> Some (Inl e)
            | Some (Inr (c, m')) \<Rightarrow> run_inserts ts (calls[t := c]) m')
      else run_inserts ts calls m)"

text \<open>
  Two threads insert the same absent key \<open>1\<close>, with values \<open>10\<close> and \<open>20\<close>, into a new map
  of four buckets; both do their lookup before either writes.
\<close>

definition duplicate_insert_run ::
  "(fault + (nat, nat) insert_call list \<times> (nat, nat) LockFreeHashMap) option" where
  "duplicate_insert_run =
     run_inserts [0, 1, 0, 1] [InsertStart 1 10, InsertStart 1 20] (LockFreeHashMap_ctor 4 of_nat)"


section \<open>ThreadPool (include/concurrent/thread_pool.hpp)\<close>

text \<open>
  A work unit is a callable without arguments that returns a value of type \<open>'r\<close> or
  throws an exception of type \<open>'e\<close>: a function \<open>unit \<Rightarrow> 'e + 'r\<close>. \<open>submit\<close> wraps it in a
  \<open>std::packaged_task\<close>, whose shared state is what the future reads: not ready
  (\<open>None\<close>), a value (\<open>Some (Inr v)\<close>) or an exception (\<open>Some (Inl e)\<close>). The \<open>Task\<close> put on
  the queue is the closure \<^verbatim>\<open>[task]() { (*task)(); }\<close>, that is, the pointer to the
  packaged task; the future handed back is the same pointer.
\<close>

record ('e, 'r) packaged_task =
  work :: "unit \<Rightarrow> 'e + 'r"
  shared_state :: "('e + 'r) option"

text \<open>
  A worker thread is at one place of \<open>worker_loop\<close>: at the loop test (line 34), inside
  the call of \<open>dequeue\<close> (line 35) at one of its statements, before the increment with
  the task it took (line 38), before the call of the task (line 39), before the
  decrement (line 40), in the timed wait on the condition variable (lines 43 to 45), or
  it has left the loop. When \<open>dequeue\<close> returns, the worker goes on with the task or to
  the timed wait (line 37).
\<close>

datatype worker_pc =
    AtLoopTest
  | AtDequeue "addr dequeue_pc"
  | AtIncrement addr
  | AtCall addr
  | AtDecrement
  | AtWait
  | Exited

fun worker_after_dequeue :: "addr dequeue_pc \<Rightarrow> worker_pc" where
  "worker_after_dequeue (DequeueReturn (Some task)) = AtIncrement task"
| "worker_after_dequeue (DequeueReturn None) = AtWait"
| "worker_after_dequeue pc = AtDequeue pc"

text \<open>
  The pool object: the members \<^verbatim>\<open>workers_\<close> (the threads, each with the place it is at),
  \<^verbatim>\<open>task_queue_\<close>, \<^verbatim>\<open>stop_\<close> and \<^verbatim>\<open>active_tasks_\<close>, and the packaged tasks on the heap.
  The mutex and the condition variable only delay a worker; they carry no data.
\<close>

record ('e, 'r) ThreadPool =
  workers_m :: "worker_pc list"
  task_queue_m :: "addr LockFreeQueue"
  stop_m :: bool
  active_tasks_m :: size_t
  tasks :: "addr \<rightharpoonup> ('e, 'r) packaged_task"
  next_task :: addr

definition ThreadPool_ctor :: "size_t \<Rightarrow> ('e, 'r) ThreadPool" where
  "ThreadPool_ctor num_threads =
     (let num_threads = (if num_threads = 0 then 1 else num_threads)
      in \<lparr>workers_m = replicate (unat num_threads) AtLoopTest,
          task_queue_m = LockFreeQueue_ctor, stop_m = False, active_tasks_m = 0,
          tasks = Map.empty, next_task = 0\<rparr>)"

definition submit :: "(unit \<Rightarrow> 'e + 'r) \<Rightarrow> ('e, 'r) ThreadPool \<Rightarrow> fault + addr \<times> ('e, 'r) ThreadPool" where
  "submit f p0 =
     (let task = next_task p0;
          p1 = p0\<lparr>tasks := (tasks p0)(task \<mapsto> \<lparr>work = f, shared_state = None\<rparr>),
                  next_task := Suc task\<rparr>
      in on_ok (enqueue task (task_queue_m p1)) (\<lambda>(_, q).
         Inr (task, p1\<lparr>task_queue_m := q\<rparr>)))"

text \<open>
  The call of a \<open>Task\<close>: \<open>packaged_task::operator()\<close> runs the work unit and stores its
  value, or the exception it threw, in the shared state; nothing is thrown to the
  caller. On a packaged task that has run already it throws \<open>std::future_error\<close>, which
  nothing in \<open>worker_loop\<close> or \<open>wait\<close> catches.
\<close>

definition invoke_task :: "addr \<Rightarrow> ('e, 'r) ThreadPool \<Rightarrow> fault + ('e, 'r) ThreadPool" where
  "invoke_task task p =
     (case tasks p task of
        None \<Rightarrow> Inl InvalidAccess
      | Some pt \<Rightarrow>
          (case shared_state pt of
             Some _ \<Rightarrow> Inl UncaughtException
           | None \<Rightarrow> Inr (p\<lparr>tasks := (tasks p)(task \<mapsto> pt\<lparr>shared_state := Some (work pt ())\<rparr>)\<rparr>)))"

text \<open>What \<open>future::get\<close> finds: \<open>None\<close> while the result is not ready (the call blocks).\<close>

definition future_get :: "addr \<Rightarrow> ('e, 'r) ThreadPool \<Rightarrow> ('e + 'r) option" where
  "future_get task p = (case tasks p task of None \<Rightarrow> None | Some pt \<Rightarrow> shared_state pt)"

definition set_worker :: "nat \<Rightarrow> worker_pc \<Rightarrow> ('e, 'r) ThreadPool \<Rightarrow> ('e, 'r) ThreadPool" where
  "set_worker i pc p = p\<lparr>workers_m := (workers_m p)[i := pc]\<rparr>"

text \<open>
  One step of worker \<open>i\<close> in \<open>worker_loop\<close>. Inside \<open>dequeue\<close> a step is one statement of
  it (\<open>dequeue_step\<close>), so that the other threads can run between any two of them. The
  timed wait always comes back to the loop test (by a notification, by its predicate or
  by the timeout of 100 ms).
\<close>

definition worker_step :: "nat \<Rightarrow> ('e, 'r) ThreadPool \<Rightarrow> fault + ('e, 'r) ThreadPool" where
  "worker_step i p =
     (if length (workers_m p) \<le> i then Inr p
      else case workers_m p ! i of
        AtLoopTest \<Rightarrow>
          Inr (set_worker i (if stop_m p then Exited else AtDequeue DequeueLoadHead) p)
      | AtDequeue pc \<Rightarrow>
          on_ok (dequeue_step pc (task_queue_m p)) (\<lambda>(pc', q).
            Inr (set_worker i (worker_after_dequeue pc') (p\<lparr>task_queue_m := q\<rparr>)))
      | AtIncrement task \<Rightarrow>
          Inr (set_worker i (AtCall task) (p\<lparr>active_tasks_m := active_tasks_m p + 1\<rparr>))
      | AtCall task \<Rightarrow> on_ok (invoke_task task p) (\<lambda>p'. Inr (set_worker i AtDecrement p'))
      | AtDecrement \<Rightarrow>
          Inr (set_worker i AtLoopTest (p\<lparr>active_tasks_m := active_tasks_m p - 1\<rparr>))
      | AtWait \<Rightarrow> Inr (set_worker i AtLoopTest p)
      | Exited \<Rightarrow> Inr p)"

text \<open>
  The thread that called \<open>wait\<close> is at one place of it: in the first loop (line 122), at
  the test of the second loop (line 127), inside the call of \<open>dequeue\<close> (line 128) at one
  of its statements, before the increment, the call and the decrement (lines 130 to
  132), at the \<open>yield\<close> (line 134), or it has returned.
\<close>

datatype wait_pc =
    WaitSpin
  | WaitTestEmpty
  | WaitDequeue "addr dequeue_pc"
  | WaitIncrement addr
  | WaitCall addr
  | WaitDecrement
  | WaitYield
  | WaitReturned

fun wait_after_dequeue :: "addr dequeue_pc \<Rightarrow> wait_pc" where
  "wait_after_dequeue (DequeueReturn (Some task)) = WaitIncrement task"
| "wait_after_dequeue (DequeueReturn None) = WaitYield"
| "wait_after_dequeue pc = WaitDequeue pc"

definition wait_step :: "wait_pc \<Rightarrow> ('e, 'r) ThreadPool \<Rightarrow> fault + wait_pc \<times> ('e, 'r) ThreadPool" where
  "wait_step pc p =
     (case pc of
        WaitSpin \<Rightarrow> Inr (if active_tasks_m p > 0 then WaitSpin else WaitTestEmpty, p)
      | WaitTestEmpty \<Rightarrow>
          on_ok (empty (task_queue_m p)) (\<lambda>e.
            Inr (if \<not> e then WaitDequeue DequeueLoadHead else WaitReturned, p))
      | WaitDequeue pc \<Rightarrow>
          on_ok (dequeue_step pc (task_queue_m p)) (\<lambda>(pc', q).
            Inr (wait_after_dequeue pc', p\<lparr>task_queue_m := q\<rparr>))
      | WaitIncrement task \<Rightarrow> Inr (WaitCall task, p\<lparr>active_tasks_m := active_tasks_m p + 1\<rparr>)
      | WaitCall task \<Rightarrow> on_ok (invoke_task task p) (\<lambda>p'. Inr (WaitDecrement, p'))
      | WaitDecrement \<Rightarrow> Inr (WaitYield, p\<lparr>active_tasks_m := active_tasks_m p - 1\<rparr>)
      | WaitYield \<Rightarrow> Inr (WaitTestEmpty, p)
      | WaitReturned \<Rightarrow> Inr (WaitReturned, p))"

definition active_tasks :: "('e, 'r) ThreadPool \<Rightarrow> size_t" where
  "active_tasks p = active_tasks_m p"

definition queued_tasks :: "('e, 'r) ThreadPool \<Rightarrow> (fault + size_t) option" where
  "queued_tasks p = approximate_size (task_queue_m p)"

subsection \<open>Executions of a pool and its client\<close>

text \<open>
  An execution is a list of events: the client submits a work unit, a worker takes a
  step, the client calls \<open>wait\<close>, the client takes a step inside \<open>wait\<close>. The state of the
  system is the pool, the futures the client got from \<open>submit\<close> (in order), and the place
  the client is at inside \<open>wait\<close>, if it called it. The threads interleave between any
  two statements of \<open>dequeue\<close>, the operation two consumers of the queue can be inside
  at once. \<open>submit\<close> (with its \<open>enqueue\<close>), \<open>empty\<close> and the call of a task are one step each:
  every execution of the model is an execution of the code, one in which no thread runs
  while another is inside one of these three.
\<close>

datatype ('e, 'r) event = Submit "unit \<Rightarrow> 'e + 'r" | WorkerStep nat | CallWait | WaitStep

record ('e, 'r) system =
  pool :: "('e, 'r) ThreadPool"
  futures :: "addr list"
  caller :: "wait_pc option"

definition start :: "size_t \<Rightarrow> ('e, 'r) system" where
  "start num_threads = \<lparr>pool = ThreadPool_ctor num_threads, futures = [], caller = None\<rparr>"

fun exec_event :: "('e, 'r) event \<Rightarrow> ('e, 'r) system \<Rightarrow> fault + ('e, 'r) system" where
  "exec_event (Submit f) s =
     on_ok (submit f (pool s)) (\<lambda>(fut, p). Inr (s\<lparr>pool := p, futures := futures s @ [fut]\<rparr>))"
| "exec_event (WorkerStep i) s = on_ok (worker_step i (pool s)) (\<lambda>p. Inr (s\<lparr>pool := p\<rparr>))"
| "exec_event CallWait s = Inr (s\<lparr>caller := Some WaitSpin\<rparr>)"
| "exec_event WaitStep s =
     (case caller s of
        None \<Rightarrow> Inr s
      | Some pc \<Rightarrow> on_ok (wait_step pc (pool s)) (\<lambda>(pc', p). Inr (s\<lparr>pool := p, caller := Some pc'\<rparr>)))"

fun run_events :: "('e, 'r) event list \<Rightarrow> ('e, 'r) system \<Rightarrow> fault + ('e, 'r) system" where
  "run_events [] s = Inr s"
| "run_events (ev # evs) s = on_ok (exec_event ev s) (run_events evs)"


section \<open>Verification of the queue\<close>

lemma qchain_tail: "qchain q a ts \<Longrightarrow> last (a # map fst ts) = tail_m q"
proof (induction ts arbitrary: a)
  case Nil
  then show ?case by auto
next
  case (Cons t ts)
  from Cons.prems have "qchain q (fst t) ts" by auto
  from Cons.IH[OF this] show ?case by simp
qed

lemma qchain_tail_node: "qchain q a ts \<Longrightarrow> load_next (tail_m q) q = Inr None"
proof (induction ts arbitrary: a)
  case Nil
  then show ?case by auto
next
  case (Cons t ts)
  from Cons.prems have "qchain q (fst t) ts" by auto
  from Cons.IH[OF this] show ?case .
qed

lemma qchain_frame:
  assumes "qchain q a ts"
    and "load_next a q' = load_next a q"
    and "\<And>b. b \<in> set (map fst ts) \<Longrightarrow> load_next b q' = load_next b q \<and> load_data b q' = load_data b q"
    and "\<And>p. p \<in> set (map (fst \<circ> snd) ts) \<Longrightarrow> read_T p q' = read_T p q"
    and "tail_m q' = tail_m q"
  shows "qchain q' a ts"
  using assms
proof (induction ts arbitrary: a)
  case Nil
  then show ?case by simp
next
  case (Cons t ts)
  have "qchain q' (fst t) ts"
  proof (rule Cons.IH)
    show "qchain q (fst t) ts" using Cons.prems(1) by simp
    show "load_next (fst t) q' = load_next (fst t) q" using Cons.prems(3)[of "fst t"] by simp
    show "\<And>b. b \<in> set (map fst ts) \<Longrightarrow> load_next b q' = load_next b q \<and> load_data b q' = load_data b q"
      using Cons.prems(3) by simp
    show "\<And>p. p \<in> set (map (fst \<circ> snd) ts) \<Longrightarrow> read_T p q' = read_T p q"
      using Cons.prems(4) by simp
    show "tail_m q' = tail_m q" by fact
  qed
  moreover have "load_data (fst t) q' = load_data (fst t) q"
    using Cons.prems(3)[of "fst t"] by simp
  moreover have "read_T (fst (snd t)) q' = read_T (fst (snd t)) q"
    using Cons.prems(4)[of "fst (snd t)"] by simp
  ultimately show ?case using Cons.prems(1,2) by simp
qed

lemma qchain_snoc:
  assumes "qchain q a ts"
    and "\<And>b. b \<noteq> tail_m q \<Longrightarrow> b \<noteq> new \<Longrightarrow> load_next b q' = load_next b q"
    and "\<And>b. b \<noteq> new \<Longrightarrow> load_data b q' = load_data b q"
    and "\<And>r. r \<noteq> p \<Longrightarrow> read_T r q' = read_T r q"
    and "load_next (tail_m q) q' = Inr (Some new)"
    and "load_next new q' = Inr None"
    and "load_data new q' = Inr (Some p)"
    and "read_T p q' = Inr x"
    and "tail_m q' = new"
    and "new \<notin> set (a # map fst ts)"
    and "p \<notin> set (map (fst \<circ> snd) ts)"
  shows "qchain q' a (ts @ [(new, p, x)])"
  using assms(1,10,11)
proof (induction ts arbitrary: a)
  case Nil
  then show ?case using assms(5-9) by simp
next
  case (Cons t ts)
  have c: "qchain q (fst t) ts" using Cons.prems(1) by simp
  have "load_next (tail_m q) q = Inr None" using qchain_tail_node[OF c] .
  then have ne: "a \<noteq> tail_m q" using Cons.prems(1) by auto
  have "qchain q' (fst t) (ts @ [(new, p, x)])"
    using c Cons.prems(2,3) by (intro Cons.IH) simp_all
  moreover have "load_next a q' = load_next a q"
    using ne Cons.prems(2) by (intro assms(2)) simp_all
  moreover have "load_data (fst t) q' = load_data (fst t) q"
    using Cons.prems(2) by (intro assms(3)) auto
  moreover have "read_T (fst (snd t)) q' = read_T (fst (snd t)) q"
    using Cons.prems(3) by (intro assms(4)) auto
  ultimately show ?case using Cons.prems(1) by simp
qed

lemma qinv_ctor: "qinv LockFreeQueue_ctor []"
  by (simp add: qinv_def LockFreeQueue_ctor_def allocate_node_def load_next_def)


lemma load_next_InrD: "load_next a q = Inr w \<Longrightarrow> \<exists>n. nodes q a = Some n \<and> next n = w"
  by (auto simp: load_next_def split: option.splits)

lemma load_data_InrD: "load_data a q = Inr w \<Longrightarrow> \<exists>n. nodes q a = Some n \<and> data n = w"
  by (auto simp: load_data_def split: option.splits)

lemma read_T_InrD: "read_T p q = Inr x \<Longrightarrow> cells q p = Some x"
  by (auto simp: read_T_def split: option.splits)

lemma enqueue_qinv:
  assumes "qinv q ts"
  shows "\<exists>q'. enqueue x q = Inr (True, q') \<and> qinv q' (ts @ [(fresh q, Suc (fresh q), x)])"
proof -
  have ch: "qchain q (head_m q) ts" using assms by (simp add: qinv_def)
  obtain tn where tn: "nodes q (tail_m q) = Some tn"
    using load_next_InrD[OF qchain_tail_node[OF ch]] by blast
  have "tail_m q \<in> set (head_m q # map fst ts)"
    using qchain_tail[OF ch] by (metis last_in_set list.distinct(1))
  then have "tail_m q < fresh q" using assms unfolding qinv_def by blast
  then have ne: "tail_m q \<noteq> fresh q" by simp
  define q' where "q' = q\<lparr>nodes := (nodes q)(tail_m q \<mapsto> tn\<lparr>next := Some (fresh q)\<rparr>,
                        fresh q \<mapsto> \<lparr>data = Some (Suc (fresh q)), next = None\<rparr>),
                      cells := (cells q)(Suc (fresh q) \<mapsto> x),
                      fresh := Suc (Suc (fresh q)), tail_m := fresh q\<rparr>"
  have e: "enqueue x q = Inr (True, q')"
    using tn ne
    by (simp add: enqueue_def allocate_node_def new_T_def store_data_def store_next_def
        on_ok_def q'_def fun_upd_twist)
  have fr: "fresh q \<notin> set (head_m q # map fst ts)" "Suc (fresh q) \<notin> set (map (fst \<circ> snd) ts)"
    using assms unfolding qinv_def by (auto simp del: set_map)
  have c: "qchain q' (head_m q) (ts @ [(fresh q, Suc (fresh q), x)])"
    using fr ne tn
    by (intro qchain_snoc[OF ch, where new="fresh q" and p="Suc (fresh q)"])
       (simp_all add: q'_def load_next_def load_data_def read_T_def)
  have "qinv q' (ts @ [(fresh q, Suc (fresh q), x)])"
    using c assms fr unfolding qinv_def
    by (auto simp: q'_def less_Suc_eq)
  with e show ?thesis by blast
qed


lemma dequeue_nil: "qinv q [] \<Longrightarrow> dequeue q = Inr (None, q)"
  by (simp add: qinv_def dequeue_def on_ok_def)

lemma dequeue_cons:
  assumes "qinv q (t # ts)"
  shows "\<exists>q'. dequeue q = Inr (Some (snd (snd t)), q') \<and> qinv q' ts"
proof -
  obtain b p x where t: "t = (b, p, x)" by (cases t) auto
  have ch: "load_next (head_m q) q = Inr (Some b)" "load_data b q = Inr (Some p)"
    "read_T p q = Inr x" "qchain q b ts"
    using assms by (simp_all add: qinv_def t)
  obtain hn where hn: "nodes q (head_m q) = Some hn"
    using load_next_InrD[OF ch(1)] by auto
  have cp: "cells q p = Some x" using read_T_InrD[OF ch(3)] by simp
  have d: "head_m q \<noteq> b" "head_m q \<notin> set (map fst ts)" "b \<notin> set (map fst ts)"
    "p \<notin> set (map (fst \<circ> snd) ts)" "distinct (map fst ts)" "distinct (map (fst \<circ> snd) ts)"
    using assms by (auto simp: qinv_def t)
  define q' where "q' = q\<lparr>cells := (cells q)(p := None), head_m := b,
                       nodes := (nodes q)(head_m q := None)\<rparr>"
  have e: "dequeue q = Inr (Some x, q')"
    using ch hn cp
    by (simp add: dequeue_def on_ok_def delete_T_def deallocate_node_def q'_def Let_def)
  have c: "qchain q' b ts"
    using d by (intro qchain_frame[OF ch(4)])
      (auto simp del: set_map simp: q'_def load_next_def load_data_def read_T_def)
  have "qinv q' ts"
    using c d assms unfolding qinv_def by (auto simp: q'_def t)
  with e show ?thesis by (auto simp: t)
qed

lemma dequeue_cas_nil: "qinv q [] \<Longrightarrow> dequeue_cas q = Some (Inr (None, q))"
  by (subst dequeue_cas.simps) (simp add: qinv_def)

lemma dequeue_cas_cons:
  assumes "qinv q (t # ts)"
  shows "\<exists>q'. dequeue_cas q = Some (Inr (Some (snd (snd t)), q')) \<and> qinv q' ts"
proof -
  obtain b p x where t: "t = (b, p, x)" by (cases t) auto
  have ch: "load_next (head_m q) q = Inr (Some b)" "load_data b q = Inr (Some p)"
    "read_T p q = Inr x" "qchain q b ts"
    using assms by (simp_all add: qinv_def t)
  obtain nb where nb: "nodes q b = Some nb"
    using load_data_InrD[OF ch(2)] by auto
  have cp: "cells q p = Some x" using read_T_InrD[OF ch(3)] by simp
  have d: "head_m q \<noteq> b" "head_m q \<notin> set (map fst ts)" "b \<notin> set (map fst ts)"
    "p \<notin> set (map (fst \<circ> snd) ts)" "distinct (map fst ts)" "distinct (map (fst \<circ> snd) ts)"
    using assms by (auto simp: qinv_def t)
  define q' where "q' = q\<lparr>head_m := b, cells := (cells q)(p := None),
                       nodes := (nodes q)(b \<mapsto> nb\<lparr>data := None\<rparr>)\<rparr>"
  have rd: "read_T p (q\<lparr>head_m := b\<rparr>) = Inr x"
    using ch(3) by (simp add: read_T_def)
  have e: "dequeue_cas q = Some (Inr (Some x, q'))"
    using ch nb cp rd
    by (subst dequeue_cas.simps)
       (simp add: compare_exchange_weak_def on_ok_def delete_T_def store_data_def q'_def Let_def)
  have c: "qchain q' b ts"
    using d nb by (intro qchain_frame[OF ch(4)])
      (auto simp del: set_map simp: q'_def load_next_def load_data_def read_T_def)
  have "qinv q' ts"
    using c d assms unfolding qinv_def by (auto simp: q'_def t)
  with e show ?thesis by (auto simp: t)
qed

lemma empty_qinv: "qinv q ts \<Longrightarrow> empty q = Inr (ts = [])"
  by (cases ts) (simp_all add: qinv_def empty_def on_ok_def)

lemma approximate_size_loop_qchain:
  "qchain q a ts \<Longrightarrow>
   approximate_size_loop q (Some a) c = Some (Inr (c + of_nat (length ts)))"
proof (induction ts arbitrary: a c)
  case Nil
  then show ?case
    by (subst approximate_size_loop.simps, simp, subst approximate_size_loop.simps, simp)
next
  case (Cons t ts)
  then have "approximate_size_loop q (Some (fst t)) (c + 1) = Some (Inr (c + 1 + of_nat (length ts)))"
    by simp
  then show ?case using Cons.prems
    by (subst approximate_size_loop.simps) (simp add: add.assoc)
qed

lemma approximate_size_qinv:
  "qinv q ts \<Longrightarrow> approximate_size q = Some (Inr (of_nat (length ts)))"
  using approximate_size_loop_qchain[of q "head_m q" ts 0]
  by (simp add: approximate_size_def qinv_def)

lemma apply_op_fifo:
  assumes "qinv q ts"
  shows "\<exists>q' ts'. apply_op op q = Some (Inr (fst (fifo_op op (qvals ts)), q')) \<and>
           qinv q' ts' \<and> qvals ts' = snd (fifo_op op (qvals ts))"
proof (cases op)
  case (Enqueue x)
  from enqueue_qinv[OF assms, of x] obtain q' where
    "enqueue x q = Inr (True, q')" "qinv q' (ts @ [(fresh q, Suc (fresh q), x)])" by blast
  then show ?thesis using Enqueue
    by (intro exI[of _ q'] exI[of _ "ts @ [(fresh q, Suc (fresh q), x)]"]) (simp add: on_ok_def)
next
  case Dequeue
  show ?thesis
  proof (cases ts)
    case Nil
    then show ?thesis using Dequeue assms dequeue_nil[of q]
      by (intro exI[of _ q] exI[of _ "[]"]) (simp add: on_ok_def)
  next
    case (Cons t ts')
    from dequeue_cons[of q t ts'] assms Cons obtain q' where
      "dequeue q = Inr (Some (snd (snd t)), q')" "qinv q' ts'" by blast
    then show ?thesis using Dequeue Cons
      by (intro exI[of _ q'] exI[of _ ts']) (simp add: on_ok_def)
  qed
next
  case Empty
  then show ?thesis using assms empty_qinv[OF assms]
    by (intro exI[of _ q] exI[of _ ts]) (simp add: on_ok_def)
next
  case ApproximateSize
  then show ?thesis using assms approximate_size_qinv[OF assms]
    by (intro exI[of _ q] exI[of _ ts]) (simp add: on_ok_def)
qed

lemma apply_op_cas_fifo:
  assumes "qinv q ts"
  shows "\<exists>q' ts'. apply_op_cas op q = Some (Inr (fst (fifo_op op (qvals ts)), q')) \<and>
           qinv q' ts' \<and> qvals ts' = snd (fifo_op op (qvals ts))"
proof (cases op)
  case (Enqueue x)
  from enqueue_qinv[OF assms, of x] obtain q' where
    "enqueue x q = Inr (True, q')" "qinv q' (ts @ [(fresh q, Suc (fresh q), x)])" by blast
  then show ?thesis using Enqueue
    by (intro exI[of _ q'] exI[of _ "ts @ [(fresh q, Suc (fresh q), x)]"]) (simp add: on_ok_def)
next
  case Dequeue
  show ?thesis
  proof (cases ts)
    case Nil
    then show ?thesis using Dequeue assms dequeue_cas_nil[of q]
      by (intro exI[of _ q] exI[of _ "[]"]) (simp add: on_ok_def)
  next
    case (Cons t ts')
    from dequeue_cas_cons[of q t ts'] assms Cons obtain q' where
      "dequeue_cas q = Some (Inr (Some (snd (snd t)), q'))" "qinv q' ts'" by blast
    then show ?thesis using Dequeue Cons
      by (intro exI[of _ q'] exI[of _ ts']) (simp add: on_ok_def)
  qed
next
  case Empty
  then show ?thesis using assms empty_qinv[OF assms]
    by (intro exI[of _ q] exI[of _ ts]) (simp add: on_ok_def)
next
  case ApproximateSize
  then show ?thesis using assms approximate_size_qinv[OF assms]
    by (intro exI[of _ q] exI[of _ ts]) (simp add: on_ok_def)
qed

lemma run_ops_fifo:
  assumes step: "\<And>op q ts. qinv q ts \<Longrightarrow>
      \<exists>q' ts'. f op q = Some (Inr (fst (fifo_op op (qvals ts)), q')) \<and>
           qinv q' ts' \<and> qvals ts' = snd (fifo_op op (qvals ts))"
  shows "qinv q ts \<Longrightarrow>
     \<exists>q' ts'. run_ops f ops q = Some (Inr (fst (fifo_run ops (qvals ts)), q')) \<and>
           qinv q' ts' \<and> qvals ts' = snd (fifo_run ops (qvals ts))"
proof (induction ops arbitrary: q ts)
  case Nil
  then show ?case by auto
next
  case (Cons op ops)
  from step[OF Cons.prems, of op] obtain q1 ts1 where
    1: "f op q = Some (Inr (fst (fifo_op op (qvals ts)), q1))" "qinv q1 ts1"
       "qvals ts1 = snd (fifo_op op (qvals ts))" by blast
  from Cons.IH[OF 1(2)] obtain q2 ts2 where
    2: "run_ops f ops q1 = Some (Inr (fst (fifo_run ops (qvals ts1)), q2))" "qinv q2 ts2"
       "qvals ts2 = snd (fifo_run ops (qvals ts1))" by blast
  show ?case using 1 2
    by (intro exI[of _ q2] exI[of _ ts2]) (simp add: split_beta)
qed

text \<open>
  Claim C9. The two \<open>LockFreeQueue\<close> implementations in the source, the one of
  lockfree_queue.hpp (plain store to the head, old head node freed at once) and the copy
  at the end of thread_pool.hpp (compare-and-swap on the head, no node freed before the
  destructor), are observably equivalent: every single-threaded sequence of \<open>enqueue\<close>,
  \<open>dequeue\<close>, \<open>empty\<close> and \<open>approximate_size\<close> calls on a freshly constructed queue runs
  to the end in both, without a fault, and returns the same list of results.
\<close>

theorem queue_variants_equivalent:
  "\<exists>rs q1 q2. run_ops apply_op ops LockFreeQueue_ctor = Some (Inr (rs, q1)) \<and>
              run_ops apply_op_cas ops LockFreeQueue_ctor = Some (Inr (rs, q2))"
proof -
  from run_ops_fifo[where f=apply_op, OF apply_op_fifo qinv_ctor, of ops]
  obtain q1 where "run_ops apply_op ops LockFreeQueue_ctor = Some (Inr (fst (fifo_run ops []), q1))"
    by auto
  moreover
  from run_ops_fifo[where f=apply_op_cas, OF apply_op_cas_fifo qinv_ctor, of ops]
  obtain q2 where "run_ops apply_op_cas ops LockFreeQueue_ctor = Some (Inr (fst (fifo_run ops []), q2))"
    by auto
  ultimately show ?thesis by blast
qed

lemma fifo_run_append:
  "fifo_run (as @ bs) xs =
     (fst (fifo_run as xs) @ fst (fifo_run bs (snd (fifo_run as xs))),
      snd (fifo_run bs (snd (fifo_run as xs))))"
  by (induction as arbitrary: xs) (simp_all add: split_beta)

lemma fifo_run_enqueues:
  "fifo_run (map Enqueue xs) ys = (replicate (length xs) (Enqueued True), ys @ xs)"
  by (induction xs arbitrary: ys) simp_all

lemma fifo_run_dequeues:
  "fifo_run (replicate (length xs) Dequeue) (xs @ ys) = (map (\<lambda>x. Dequeued (Some x)) xs, ys)"
  by (induction xs) simp_all

lemma fifo_run_scenario:
  "fifo_run (map Enqueue xs @ replicate (length xs) Dequeue @ [Dequeue, Empty]) [] =
     (replicate (length xs) (Enqueued True) @ map (\<lambda>x. Dequeued (Some x)) xs @
        [Dequeued None, IsEmpty True], [])"
  using fifo_run_dequeues[of xs "[]"]
  by (simp add: fifo_run_append fifo_run_enqueues)

lemma queue_scenario:
  "\<exists>q. run_ops apply_op (map Enqueue xs @ replicate (length xs) Dequeue @ [Dequeue, Empty])
          LockFreeQueue_ctor =
        Some (Inr (replicate (length xs) (Enqueued True) @ map (\<lambda>x. Dequeued (Some x)) xs @
                     [Dequeued None, IsEmpty True], q))"
  using run_ops_fifo[where f=apply_op, OF apply_op_fifo qinv_ctor,
      of "map Enqueue xs @ replicate (length xs) Dequeue @ [Dequeue, Empty]"]
  by (auto simp: fifo_run_scenario)

lemma fifo_run_order:
  "xs @ enqueued_values ops =
     dequeued_values (fst (fifo_run ops xs)) @ snd (fifo_run ops xs)"
proof (induction ops arbitrary: xs)
  case Nil
  then show ?case by simp
next
  case (Cons op ops)
  show ?case
  proof (cases op)
    case (Enqueue x)
    then show ?thesis using Cons.IH[of "xs @ [x]"] by (simp add: split_beta)
  next
    case Dequeue
    then show ?thesis using Cons.IH[of "tl xs"] by (cases xs) (simp_all add: split_beta)
  next
    case Empty
    then show ?thesis using Cons.IH[of xs] by (simp add: split_beta)
  next
    case ApproximateSize
    then show ?thesis using Cons.IH[of xs] by (simp add: split_beta)
  qed
qed

text \<open>
  Claim C1. Single-threaded FIFO. For every sequence \<open>ops\<close> of \<open>enqueue\<close>, \<open>dequeue\<close>,
  \<open>empty\<close> and \<open>approximate_size\<close> calls on a newly constructed queue, in any order: the
  run ends without a fault, every call returns what the sequential FIFO queue on lists
  returns to it (\<open>fifo_run\<close>), and the values the \<open>dequeue\<close> calls returned, in the order
  of the calls, are an initial part of the values enqueued, in the order of the calls:
  elements are dequeued in their enqueue order. In particular (second conjunct), after
  enqueueing the values of any list \<open>xs\<close> in order, \<open>length xs\<close> successive \<open>dequeue\<close> calls
  return \<open>Some\<close> of these values in exactly that order, one more \<open>dequeue\<close> returns \<open>None\<close>,
  and \<open>empty\<close> then returns true. The third conjunct is the scenario of the
  specification, the values 0..99.
\<close>

theorem queue_single_thread_fifo:
  "(\<exists>rs q rest. run_ops apply_op ops LockFreeQueue_ctor = Some (Inr (rs, q)) \<and>
        rs = fst (fifo_run ops []) \<and>
        enqueued_values ops = dequeued_values rs @ rest) \<and>
   (\<exists>q. run_ops apply_op (map Enqueue xs @ replicate (length xs) Dequeue @ [Dequeue, Empty])
          LockFreeQueue_ctor =
        Some (Inr (replicate (length xs) (Enqueued True) @ map (\<lambda>x. Dequeued (Some x)) xs @
                     [Dequeued None, IsEmpty True], q))) \<and>
   (\<exists>q. run_ops apply_op (map (\<lambda>i. Enqueue (int i)) [0..<100] @ replicate 100 Dequeue @
                             [Dequeue, Empty])
          LockFreeQueue_ctor =
        Some (Inr (replicate 100 (Enqueued True) @ map (\<lambda>i. Dequeued (Some (int i))) [0..<100] @
                     [Dequeued None, IsEmpty True], q)))"
proof (intro conjI)
  from run_ops_fifo[where f=apply_op, OF apply_op_fifo qinv_ctor, of ops]
  obtain q where "run_ops apply_op ops LockFreeQueue_ctor = Some (Inr (fst (fifo_run ops []), q))"
    by auto
  moreover have "enqueued_values ops =
      dequeued_values (fst (fifo_run ops [])) @ snd (fifo_run ops [])"
    using fifo_run_order[of "[]" ops] by simp
  ultimately show "\<exists>rs q rest. run_ops apply_op ops LockFreeQueue_ctor = Some (Inr (rs, q)) \<and>
        rs = fst (fifo_run ops []) \<and> enqueued_values ops = dequeued_values rs @ rest"
    by blast
  show "\<exists>q. run_ops apply_op (map Enqueue xs @ replicate (length xs) Dequeue @ [Dequeue, Empty])
          LockFreeQueue_ctor =
        Some (Inr (replicate (length xs) (Enqueued True) @ map (\<lambda>x. Dequeued (Some x)) xs @
                     [Dequeued None, IsEmpty True], q))"
    by (rule queue_scenario)
  show "\<exists>q. run_ops apply_op (map (\<lambda>i. Enqueue (int i)) [0..<100] @ replicate 100 Dequeue @
                             [Dequeue, Empty])
          LockFreeQueue_ctor =
        Some (Inr (replicate 100 (Enqueued True) @ map (\<lambda>i. Dequeued (Some (int i))) [0..<100] @
                     [Dequeued None, IsEmpty True], q))"
    using queue_scenario[of "map int [0..<100]"] by (simp add: comp_def)
qed

text \<open>
  The statements of \<open>dequeue\<close>, run one after the other by one thread with no other thread
  in between, are \<open>dequeue\<close>.
\<close>

lemma dequeue_steps_sequential:
  "dequeue_steps 7 DequeueLoadHead q = on_ok (dequeue q) (\<lambda>(r, q'). Inr (DequeueReturn r, q'))"
  by (auto simp: eval_nat_numeral dequeue_def on_ok_def Let_def split: sum.splits option.splits)

section \<open>Verification of the hash map\<close>

lemma hseg_append:
  "hseg m p (xs @ ys) r \<longleftrightarrow> (\<exists>s. hseg m p xs s \<and> hseg m s ys r)"
  by (induction xs arbitrary: p) (auto split: sum.splits)

lemma hseg_frame:
  assumes "hseg m p es r"
    and "\<And>e. e \<in> set es \<Longrightarrow> load_node (e_addr e) m' = load_node (e_addr e) m \<and>
                              read_Value (e_vaddr e) m' = read_Value (e_vaddr e) m"
  shows "hseg m' p es r"
  using assms
proof (induction es arbitrary: p)
  case Nil
  then show ?case by simp
next
  case (Cons e es)
  from Cons.prems(1) obtain n where n: "load_node (e_addr e) m = Inr n" "p = Some (e_addr e)"
    "entry_at m e n" "hseg m (next_hm n) es r"
    by (auto split: sum.splits)
  have 1: "load_node (e_addr e) m' = Inr n" "read_Value (e_vaddr e) m' = read_Value (e_vaddr e) m"
    using Cons.prems(2)[of e] n by simp_all
  have "hseg m' (next_hm n) es r"
    using n(4) Cons.prems(2) by (intro Cons.IH) simp_all
  moreover have "entry_at m' e n"
    using n(3) 1 n(1) by (simp add: entry_at_def)
  ultimately show ?case using n(2) 1 by simp
qed

lemma find_node_loop_hseg:
  "hseg m p es None \<Longrightarrow>
   find_node_loop m p k = Some (Inr (map_option e_addr (find (\<lambda>e. e_key e = k) es)))"
proof (induction es arbitrary: p)
  case Nil
  then show ?case by (subst find_node_loop.simps) simp
next
  case (Cons e es)
  from Cons.prems obtain n where n: "load_node (e_addr e) m = Inr n" "p = Some (e_addr e)"
    "entry_at m e n" "hseg m (next_hm n) es None"
    by (auto split: sum.splits)
  from n(1,3) have kn: "key n = e_key e" "\<not> marked n" by (auto simp: entry_at_def)
  show ?case
    using Cons.IH[OF n(4)] n(1,2) kn
    by (subst find_node_loop.simps) auto
qed

lemma hseg_mem:
  "hseg m p es r \<Longrightarrow> e \<in> set es \<Longrightarrow> \<exists>n. load_node (e_addr e) m = Inr n \<and> entry_at m e n"
proof (induction es arbitrary: p)
  case Nil
  then show ?case by simp
next
  case (Cons x es)
  from Cons.prems(1) obtain n where n: "load_node (e_addr x) m = Inr n" "entry_at m x n"
    "hseg m (next_hm n) es r"
    by (auto split: sum.splits)
  show ?case
  proof (cases "e = x")
    case True
    then show ?thesis using n by blast
  next
    case False
    then show ?thesis using Cons.IH[OF n(3)] Cons.prems(2) by simp
  qed
qed

lemma bucket_ref_frame:
  "length (buckets_m m') = length (buckets_m m) \<Longrightarrow> hasher_m m' = hasher_m m \<Longrightarrow>
   bucket_ref m' k = bucket_ref m k"
  by (simp add: bucket_ref_def bucket_index_def buckets_size_def)

lemma bucket_ref_ok:
  assumes "0 < length (buckets_m m)" "length (buckets_m m) < 2 ^ 64"
  shows "\<exists>b. bucket_ref m k = Inr b \<and> b < length (buckets_m m)"
proof -
  let ?n = "length (buckets_m m)"
  have u: "unat (of_nat ?n :: size_t) = ?n"
    using assms by (simp add: unat_of_nat)
  then have nz: "(of_nat ?n :: size_t) \<noteq> 0" using assms(1) by (metis less_numeral_extra(3) unat_0)
  have "unat (hasher_m m k mod of_nat ?n) < ?n"
    using u assms(1) by (simp add: unat_mod)
  then show ?thesis using nz
    by (simp add: bucket_ref_def bucket_index_def buckets_size_def on_ok_def)
qed

lemma hinvD:
  assumes "hinv m ess"
  shows "length (buckets_m m) = length ess"
    and "0 < length ess"
    and "length ess < 2 ^ 64"
    and "\<And>b. b < length ess \<Longrightarrow> hseg m (load_head b m) (ess ! b) None"
    and "\<And>b e. b < length ess \<Longrightarrow> e \<in> set (ess ! b) \<Longrightarrow> bucket_ref m (e_key e) = Inr b"
    and "\<And>b. b < length ess \<Longrightarrow> distinct (map e_key (ess ! b))"
    and "inj_on e_vaddr (hentries ess)"
    and "\<And>e. e \<in> hentries ess \<Longrightarrow> e_addr e < hfresh m \<and> e_vaddr e < hfresh m"
    and "size_m m = of_nat (card (hkeys ess))"
  using assms unfolding hinv_def by (simp_all del: length_greater_0_conv)

lemma hinv_bucket_ref:
  assumes "hinv m ess"
  shows "\<exists>b. bucket_ref m k = Inr b \<and> b < length ess"
  using bucket_ref_ok[of m k] hinvD(1-3)[OF assms] by simp

lemma hinv_entry_node:
  assumes "hinv m ess" "b < length ess" "e \<in> set (ess ! b)"
  shows "\<exists>n. load_node (e_addr e) m = Inr n \<and> entry_at m e n"
  using hseg_mem[OF hinvD(4)[OF assms(1,2)] assms(3)] .

lemma hinv_same_addr:
  assumes "hinv m ess" "b < length ess" "e \<in> set (ess ! b)"
    "b' < length ess" "e' \<in> set (ess ! b')" "e_addr e = e_addr e'"
  shows "b = b' \<and> e = e'"
proof -
  from hinv_entry_node[OF assms(1-3)] hinv_entry_node[OF assms(1,4,5)] assms(6)
  have k: "e_key e = e_key e'" by (auto simp: entry_at_def)
  have "bucket_ref m (e_key e) = Inr b" "bucket_ref m (e_key e') = Inr b'"
    using hinvD(5)[OF assms(1)] assms by blast+
  with k have b: "b = b'" by simp
  have "distinct (map e_key (ess ! b))" using hinvD(6)[OF assms(1,2)] .
  then have "inj_on e_key (set (ess ! b))" by (simp add: distinct_map)
  with k assms(3,5) b have "e = e'" by (auto dest: inj_onD)
  with b show ?thesis by simp
qed

lemma hentries_update:
  "b < length ess \<Longrightarrow>
   hentries (ess[b := es']) = set es' \<union> {e. \<exists>b' < length ess. b' \<noteq> b \<and> e \<in> set (ess ! b')}"
  by (auto simp: hentries_def nth_list_update split: if_splits)

lemma hentries_split:
  "b < length ess \<Longrightarrow>
   hentries ess = set (ess ! b) \<union> {e. \<exists>b' < length ess. b' \<noteq> b \<and> e \<in> set (ess ! b')}"
  using hentries_update[of b ess "ess ! b"] by simp

lemma hinv_update:
  assumes inv: "hinv m ess" and b: "b < length ess"
    and len: "length (buckets_m m') = length (buckets_m m)" and hash: "hasher_m m' = hasher_m m"
    and heads: "\<And>b'. b' < length ess \<Longrightarrow> b' \<noteq> b \<Longrightarrow> load_head b' m' = load_head b' m"
    and frame: "\<And>b' e. b' < length ess \<Longrightarrow> b' \<noteq> b \<Longrightarrow> e \<in> set (ess ! b') \<Longrightarrow>
        load_node (e_addr e) m' = load_node (e_addr e) m \<and>
        read_Value (e_vaddr e) m' = read_Value (e_vaddr e) m"
    and seg: "hseg m' (load_head b m') es' None"
    and bk: "\<And>e. e \<in> set es' \<Longrightarrow> bucket_ref m (e_key e) = Inr b"
    and dk: "distinct (map e_key es')"
    and inj: "inj_on e_vaddr (set es')"
    and old_or_new: "\<And>e. e \<in> set es' \<Longrightarrow> e \<in> set (ess ! b) \<or> hfresh m \<le> e_vaddr e"
    and fresh: "hfresh m \<le> hfresh m'"
    and bound: "\<And>e. e \<in> set es' \<Longrightarrow> e_addr e < hfresh m' \<and> e_vaddr e < hfresh m'"
    and size: "size_m m' = of_nat (card (hkeys (ess[b := es'])))"
  shows "hinv m' (ess[b := es'])"
proof -
  note D = hinvD[OF inv]
  let ?ess = "ess[b := es']"
  let ?others = "{e. \<exists>b' < length ess. b' \<noteq> b \<and> e \<in> set (ess ! b')}"
  have E: "hentries ?ess = set es' \<union> ?others" by (rule hentries_update[OF b])
  have E0: "hentries ess = set (ess ! b) \<union> ?others" by (rule hentries_split[OF b])
  have br: "bucket_ref m' k = bucket_ref m k" for k
    by (rule bucket_ref_frame[OF len hash])
  have 1: "length ?ess = length (buckets_m m')" using D(1) len by simp
  have 2: "0 < length ?ess" "length ?ess < 2 ^ 64" using D(2,3) by simp_all
  have 3: "hseg m' (load_head b' m') (?ess ! b') None" if "b' < length ?ess" for b'
  proof (cases "b' = b")
    case True
    then show ?thesis using seg b by simp
  next
    case False
    have b'l: "b' < length ess" using that by simp
    have "hseg m' (load_head b' m) (ess ! b') None"
      using frame[OF b'l False] by (intro hseg_frame[OF D(4)[OF b'l]]) simp_all
    then show ?thesis using heads[of b'] that False by simp
  qed
  have 4: "bucket_ref m' (e_key e) = Inr b'" if "b' < length ?ess" "e \<in> set (?ess ! b')" for b' e
  proof (cases "b' = b")
    case True
    then show ?thesis using bk[of e] that b by (simp add: br)
  next
    case False
    then show ?thesis using D(5)[of b' e] that by (simp add: br)
  qed
  have 5: "distinct (map e_key (?ess ! b'))" if "b' < length ?ess" for b'
    using dk D(6)[of b'] that b by (cases "b' = b") simp_all
  have 6: "inj_on e_vaddr (hentries ?ess)"
  proof (rule inj_onI)
    fix x y assume xy: "x \<in> hentries ?ess" "y \<in> hentries ?ess" "e_vaddr x = e_vaddr y"
    have old: "e \<in> hentries ess" if "e \<in> ?others" for e using that E0 by blast
    have lt: "e_vaddr e < hfresh m" if "e \<in> ?others" for e using D(8)[OF old[OF that]] by simp
    consider "x \<in> set es'" "y \<in> set es'" | "x \<in> ?others" "y \<in> ?others"
      | "x \<in> set es'" "y \<in> ?others" | "x \<in> ?others" "y \<in> set es'"
      using xy(1,2) unfolding E by blast
    then show "x = y"
    proof cases
      case 1
      then show ?thesis using inj xy(3) by (auto dest: inj_onD)
    next
      case 2
      then show ?thesis using D(7) old xy(3) by (auto dest: inj_onD)
    next
      case 3
      from old_or_new[OF 3(1)] show ?thesis
      proof
        assume "x \<in> set (ess ! b)"
        then have "x \<in> hentries ess" using E0 by blast
        then show ?thesis using D(7) old[OF 3(2)] xy(3) by (auto dest: inj_onD)
      next
        assume "hfresh m \<le> e_vaddr x"
        then show ?thesis using lt[OF 3(2)] xy(3) by simp
      qed
    next
      case 4
      from old_or_new[OF 4(2)] show ?thesis
      proof
        assume "y \<in> set (ess ! b)"
        then have "y \<in> hentries ess" using E0 by blast
        then show ?thesis using D(7) old[OF 4(1)] xy(3) by (auto dest: inj_onD)
      next
        assume "hfresh m \<le> e_vaddr y"
        then show ?thesis using lt[OF 4(1)] xy(3) by simp
      qed
    qed
  qed
  have 7: "e_addr e < hfresh m' \<and> e_vaddr e < hfresh m'" if "e \<in> hentries ?ess" for e
  proof -
    from that E consider "e \<in> set es'" | "e \<in> ?others" by blast
    then show ?thesis
    proof cases
      case 1
      then show ?thesis using bound by simp
    next
      case 2
      then have "e \<in> hentries ess" using E0 by blast
      then show ?thesis using D(8)[of e] fresh by simp
    qed
  qed
  show ?thesis
    unfolding hinv_def using 1 2 3 4 5 6 7 size by blast
qed

lemma hentries_concat: "hentries ess = set (concat ess)"
proof -
  have "hentries ess = (\<Union>es \<in> set ess. set es)"
    unfolding hentries_def by (force simp: in_set_conv_nth)
  then show ?thesis by simp
qed

lemma finite_hkeys: "finite (hkeys ess)"
  by (simp add: hkeys_def hentries_concat)

lemma hkeys_bucket:
  assumes "hinv m ess" "bucket_ref m k = Inr b"
  shows "k \<in> hkeys ess \<longleftrightarrow> k \<in> e_key ` set (ess ! b)"
proof
  assume "k \<in> hkeys ess"
  then obtain b' e where e: "b' < length ess" "e \<in> set (ess ! b')" "e_key e = k"
    by (auto simp: hkeys_def hentries_def)
  from hinvD(5)[OF assms(1) e(1,2)] assms(2) e(3) have "b' = b" by simp
  with e show "k \<in> e_key ` set (ess ! b)" by auto
next
  assume r: "k \<in> e_key ` set (ess ! b)"
  from hinv_bucket_ref[OF assms(1), of k] assms(2) have "b < length ess" by simp
  with r show "k \<in> hkeys ess" by (auto simp: hkeys_def hentries_def)
qed

lemma find_key_None: "find (\<lambda>e. e_key e = k) es = None \<longleftrightarrow> k \<notin> e_key ` set es"
  by (auto simp: find_None_iff)

lemma find_key_Some:
  "distinct (map e_key es) \<Longrightarrow> e \<in> set es \<Longrightarrow> find (\<lambda>x. e_key x = e_key e) es = Some e"
  by (induction es) (auto simp: rev_image_eqI)

lemma find_key_SomeD:
  "find (\<lambda>e. e_key e = k) es = Some e \<Longrightarrow> e \<in> set es \<and> e_key e = k"
  by (induction es) (auto split: if_splits)

lemma dom_alook:
  assumes "hinv m ess"
  shows "dom (alook m ess) = hkeys ess"
proof (rule set_eqI)
  fix k
  from hinv_bucket_ref[OF assms, of k] obtain b where b: "bucket_ref m k = Inr b" "b < length ess"
    by blast
  have "k \<in> dom (alook m ess) \<longleftrightarrow> find (\<lambda>e. e_key e = k) (ess ! b) \<noteq> None"
    using b by (auto simp: alook_def dom_def)
  also have "\<dots> \<longleftrightarrow> k \<in> e_key ` set (ess ! b)" by (simp add: find_key_None)
  also have "\<dots> \<longleftrightarrow> k \<in> hkeys ess" using hkeys_bucket[OF assms b(1)] by simp
  finally show "k \<in> dom (alook m ess) \<longleftrightarrow> k \<in> hkeys ess" .
qed

lemma hkeys_update:
  "b < length ess \<Longrightarrow>
   hkeys (ess[b := es']) =
     e_key ` set es' \<union> e_key ` {e. \<exists>b' < length ess. b' \<noteq> b \<and> e \<in> set (ess ! b')}"
  by (simp add: hkeys_def hentries_update image_Un)

lemma hkeys_split:
  "b < length ess \<Longrightarrow>
   hkeys ess =
     e_key ` set (ess ! b) \<union> e_key ` {e. \<exists>b' < length ess. b' \<noteq> b \<and> e \<in> set (ess ! b')}"
  using hkeys_update[of b ess "ess ! b"] by simp

lemma hkeys_others:
  assumes "hinv m ess" "bucket_ref m k = Inr b"
  shows "k \<notin> e_key ` {e. \<exists>b' < length ess. b' \<noteq> b \<and> e \<in> set (ess ! b')}"
proof
  assume "k \<in> e_key ` {e. \<exists>b' < length ess. b' \<noteq> b \<and> e \<in> set (ess ! b')}"
  then obtain b' e where e: "b' < length ess" "b' \<noteq> b" "e \<in> set (ess ! b')" "e_key e = k"
    by auto
  from hinvD(5)[OF assms(1) e(1,3)] assms(2) e(2,4) show False by simp
qed

lemma alook_update:
  assumes "hinv m ess" "b < length ess"
    and "\<And>k'. bucket_ref m' k' = bucket_ref m k'"
    and "\<And>k'. bucket_ref m k' = Inr b \<Longrightarrow>
           map_option e_val (find (\<lambda>e. e_key e = k') es') = A' k'"
    and "\<And>k'. bucket_ref m k' \<noteq> Inr b \<Longrightarrow> A' k' = alook m ess k'"
  shows "alook m' (ess[b := es']) = A'"
proof (rule ext)
  fix k'
  from hinv_bucket_ref[OF assms(1), of k'] obtain b' where
    b': "bucket_ref m k' = Inr b'" "b' < length ess" by blast
  show "alook m' (ess[b := es']) k' = A' k'"
  proof (cases "b' = b")
    case True
    then show ?thesis using assms(2,3) assms(4)[of k'] b' by (simp add: alook_def)
  next
    case False
    then show ?thesis using assms(2,3) assms(5)[of k'] b' by (simp add: alook_def)
  qed
qed

lemma find_node_hinv:
  assumes "hinv m ess" "b < length ess"
  shows "find_node m b k = Some (Inr (map_option e_addr (find (\<lambda>e. e_key e = k) (ess ! b))))"
  unfolding find_node_def by (rule find_node_loop_hseg[OF hinvD(4)[OF assms]])

lemma hinv_ctor:
  assumes "bucket_count \<noteq> 0"
  shows "hinv (LockFreeHashMap_ctor bucket_count hash) (replicate (unat bucket_count) [])"
proof -
  have "0 < unat bucket_count" using assms by (simp add: unat_gt_0)
  moreover have "unat bucket_count < 2 ^ 64" using unsigned_less[of bucket_count] by simp
  moreover have "hentries (replicate (unat bucket_count) []) = ({} :: ('a, 'b) entry set)"
    by (auto simp: hentries_def)
  ultimately show ?thesis
    by (simp add: hinv_def LockFreeHashMap_ctor_def load_head_def hkeys_def)
qed

lemma hrep_ctor:
  assumes "bucket_count \<noteq> 0"
  shows "hrep (LockFreeHashMap_ctor bucket_count hash) Map.empty"
proof -
  let ?m = "LockFreeHashMap_ctor bucket_count hash :: ('a, 'b) LockFreeHashMap"
  let ?ess = "replicate (unat bucket_count) [] :: ('a, 'b) entry list list"
  have i: "hinv ?m ?ess" by (rule hinv_ctor[OF assms])
  have "alook ?m ?ess k = None" for k
  proof -
    from hinv_bucket_ref[OF i, of k] obtain b where "bucket_ref ?m k = Inr b" "b < length ?ess"
      by blast
    then show ?thesis by (simp add: alook_def)
  qed
  then have "alook ?m ?ess = Map.empty" by (intro ext)
  with i show ?thesis unfolding hrep_def by blast
qed

lemma get_hinv:
  assumes "hinv m ess"
  shows "get k m = Some (Inr (alook m ess k))"
proof -
  from hinv_bucket_ref[OF assms, of k] obtain b where b: "bucket_ref m k = Inr b" "b < length ess"
    by blast
  note f = find_node_hinv[OF assms b(2), of k]
  show ?thesis
  proof (cases "find (\<lambda>e. e_key e = k) (ess ! b)")
    case None
    then show ?thesis using b f by (simp add: get_def alook_def on_ok_def)
  next
    case (Some e)
    from find_key_SomeD[OF Some] have e: "e \<in> set (ess ! b)" by simp
    from hinv_entry_node[OF assms b(2) e] obtain n where
      n: "load_node (e_addr e) m = Inr n" "entry_at m e n" by blast
    then show ?thesis using b f Some
      by (simp add: get_def alook_def on_ok_def entry_at_def)
  qed
qed

lemma contains_hinv:
  assumes "hinv m ess"
  shows "contains k m = Some (Inr (alook m ess k \<noteq> None))"
proof -
  from hinv_bucket_ref[OF assms, of k] obtain b where b: "bucket_ref m k = Inr b" "b < length ess"
    by blast
  note f = find_node_hinv[OF assms b(2), of k]
  show ?thesis using b f by (simp add: contains_def alook_def on_ok_def)
qed

lemma erase_absent_hinv:
  assumes "hinv m ess" "alook m ess k = None"
  shows "erase sp k m = Some (Inr (False, m))"
proof -
  from hinv_bucket_ref[OF assms(1), of k] obtain b where b: "bucket_ref m k = Inr b" "b < length ess"
    by blast
  note f = find_node_hinv[OF assms(1) b(2), of k]
  have "find (\<lambda>e. e_key e = k) (ess ! b) = None" using assms(2) b by (simp add: alook_def)
  then show ?thesis using b f by (simp add: erase_def erase_loop.simps)
qed

lemma size_hinv:
  assumes "hinv m ess"
  shows "size_hm m = of_nat (card (dom (alook m ess)))"
  using hinvD(9)[OF assms] dom_alook[OF assms] by (simp add: size_hm_def)

lemma insert_new_hinv:
  assumes inv: "hinv m ess" and absent: "alook m ess k = None"
  shows "\<exists>m' ess'. insert_hm k v m = Some (Inr (True, m')) \<and> hinv m' ess' \<and>
           alook m' ess' = (alook m ess)(k \<mapsto> v)"
proof -
  note D = hinvD[OF inv]
  from hinv_bucket_ref[OF inv, of k] obtain b where b: "bucket_ref m k = Inr b" "b < length ess"
    by blast
  have bl: "b < length (buckets_m m)" using b(2) D(1) by simp
  have none: "find (\<lambda>e. e_key e = k) (ess ! b) = None" using absent b by (simp add: alook_def)
  note f = find_node_hinv[OF inv b(2), of k]
  define a where "a = hfresh m"
  define nd where "nd = \<lparr>key = k, value = Some (Suc a), next_hm = load_head b m, marked = False\<rparr>"
  define m' where "m' = m\<lparr>hfresh := Suc (Suc a), vals := (vals m)(Suc a \<mapsto> v),
      hnodes := (hnodes m)(a \<mapsto> nd),
      buckets_m := (buckets_m m)[b := (buckets_m m ! b)\<lparr>head := Some a\<rparr>],
      size_m := size_m m + 1\<rparr>"
  define e where "e = Entry a k (Suc a) v"
  let ?ess = "ess[b := e # ess ! b]"
  have run: "insert_hm k v m = Some (Inr (True, m'))"
    using b f none bl
    by (simp add: insert_hm_def insert_lookup_def on_ok_def insert_link_def new_Node_def
        new_Value_def store_node_def load_head_def insert_cas_loop.simps
        compare_exchange_weak_def store_head_def m'_def a_def nd_def Let_def)
  have p1: "length (buckets_m m') = length (buckets_m m)" "hasher_m m' = hasher_m m"
    "hfresh m' = Suc (Suc a)" "size_m m' = size_m m + 1"
    by (simp_all add: m'_def)
  have p2: "load_head b' m' = load_head b' m" if "b' \<noteq> b" for b'
    using that by (simp add: m'_def load_head_def)
  have p3: "load_node x m' = load_node x m" if "x \<noteq> a" for x
    using that by (simp add: m'_def load_node_def)
  have p4: "read_Value y m' = read_Value y m" if "y \<noteq> Suc a" for y
    using that by (simp add: m'_def read_Value_def)
  have p5: "load_head b m' = Some a" "load_node a m' = Inr nd" "read_Value (Suc a) m' = Inr v"
    using bl by (simp_all add: m'_def load_head_def load_node_def read_Value_def)
  have old: "e_addr x < a \<and> e_vaddr x < a" if "x \<in> hentries ess" for x
    using D(8)[OF that] by (simp add: a_def)
  have inb: "x \<in> hentries ess" if "b' < length ess" "x \<in> set (ess ! b')" for x b'
    using that by (auto simp: hentries_def)
  have seg: "hseg m' (load_head b m') (e # ess ! b) None"
  proof -
    have "hseg m' (load_head b m) (ess ! b) None"
    proof (rule hseg_frame[OF D(4)[OF b(2)]])
      fix x assume "x \<in> set (ess ! b)"
      then have "e_addr x < a \<and> e_vaddr x < a" using old inb[OF b(2)] by blast
      then show "load_node (e_addr x) m' = load_node (e_addr x) m \<and>
                 read_Value (e_vaddr x) m' = read_Value (e_vaddr x) m"
        using p3[of "e_addr x"] p4[of "e_vaddr x"] by simp
    qed
    then show ?thesis using p5 by (simp add: e_def nd_def entry_at_def)
  qed
  have knew: "k \<notin> hkeys ess"
    using hkeys_bucket[OF inv b(1)] none by (simp add: find_key_None)
  have "hkeys ?ess = insert k (hkeys ess)"
    using hkeys_update[OF b(2), of "e # ess ! b"] hkeys_split[OF b(2)] by (auto simp: e_def)
  then have "card (hkeys ?ess) = Suc (card (hkeys ess))"
    using knew finite_hkeys[of ess] by simp
  then have size: "size_m m' = of_nat (card (hkeys ?ess))"
    using D(9) p1(4) by simp
  have inv': "hinv m' ?ess"
  proof (rule hinv_update[OF inv b(2) p1(1,2)])
    show "load_head b' m' = load_head b' m" if "b' < length ess" "b' \<noteq> b" for b'
      using p2 that by simp
    show "load_node (e_addr x) m' = load_node (e_addr x) m \<and>
          read_Value (e_vaddr x) m' = read_Value (e_vaddr x) m"
      if "b' < length ess" "b' \<noteq> b" "x \<in> set (ess ! b')" for b' x
      using old[OF inb[OF that(1,3)]] p3[of "e_addr x"] p4[of "e_vaddr x"] by simp
    show "hseg m' (load_head b m') (e # ess ! b) None" by (rule seg)
    show "bucket_ref m (e_key x) = Inr b" if "x \<in> set (e # ess ! b)" for x
      using that b D(5)[OF b(2)] by (auto simp: e_def)
    show "distinct (map e_key (e # ess ! b))"
      using D(6)[OF b(2)] none by (simp add: e_def find_key_None)
    show "inj_on e_vaddr (set (e # ess ! b))"
    proof -
      have "inj_on e_vaddr (set (ess ! b))"
        using D(7) inb[OF b(2)] by (auto intro: inj_on_subset)
      moreover have "e_vaddr e \<notin> e_vaddr ` set (ess ! b)"
        using old inb[OF b(2)] by (fastforce simp: e_def)
      ultimately show ?thesis by auto
    qed
    show "x \<in> set (ess ! b) \<or> hfresh m \<le> e_vaddr x" if "x \<in> set (e # ess ! b)" for x
      using that by (auto simp: e_def a_def)
    show "hfresh m \<le> hfresh m'" by (simp add: p1 a_def)
    show "e_addr x < hfresh m' \<and> e_vaddr x < hfresh m'" if "x \<in> set (e # ess ! b)" for x
      using that old[OF inb[OF b(2)]] by (auto simp: p1 e_def less_Suc_eq)
    show "size_m m' = of_nat (card (hkeys ?ess))" by (rule size)
  qed
  have al: "alook m' ?ess = (alook m ess)(k \<mapsto> v)"
  proof (rule alook_update[OF inv b(2)])
    show "bucket_ref m' k' = bucket_ref m k'" for k'
      by (rule bucket_ref_frame[OF p1(1,2)])
    show "map_option e_val (find (\<lambda>x. e_key x = k') (e # ess ! b)) = ((alook m ess)(k \<mapsto> v)) k'"
      if "bucket_ref m k' = Inr b" for k'
      using that by (simp add: e_def alook_def)
    show "((alook m ess)(k \<mapsto> v)) k' = alook m ess k'" if "bucket_ref m k' \<noteq> Inr b" for k'
      using that b(1) by auto
  qed
  from run inv' al show ?thesis by blast
qed

lemma find_replace:
  "e_key e' = e_key e \<Longrightarrow> k' \<noteq> e_key e \<Longrightarrow>
   find (\<lambda>x. e_key x = k') (pre @ e' # post) = find (\<lambda>x. e_key x = k') (pre @ e # post)"
  by (induction pre) auto

lemma find_replace_hit:
  "e_key e' \<notin> e_key ` set pre \<Longrightarrow> find (\<lambda>x. e_key x = e_key e') (pre @ e' # post) = Some e'"
  by (induction pre) auto

lemma find_remove:
  "k' \<noteq> e_key e \<Longrightarrow>
   find (\<lambda>x. e_key x = k') (pre @ post) = find (\<lambda>x. e_key x = k') (pre @ e # post)"
  by (induction pre) auto

lemma find_remove_hit:
  assumes "distinct (map e_key (pre @ e # post))"
  shows "find (\<lambda>x. e_key x = e_key e) (pre @ post) = None"
proof -
  have "e_key e \<notin> e_key ` set pre" "e_key e \<notin> e_key ` set post"
    using assms by auto
  then have "e_key e \<notin> e_key ` set (pre @ post)" by auto
  then show ?thesis using find_key_None[of "e_key e" "pre @ post"] by blast
qed

lemma alook_SomeD:
  assumes "hinv m ess" "alook m ess k = Some v0"
  shows "\<exists>b e pre post n. bucket_ref m k = Inr b \<and> b < length ess \<and> ess ! b = pre @ e # post \<and>
           e_key e = k \<and> e_val e = v0 \<and> load_node (e_addr e) m = Inr n \<and> entry_at m e n \<and>
           find (\<lambda>x. e_key x = k) (ess ! b) = Some e"
proof -
  from hinv_bucket_ref[OF assms(1), of k] obtain b where b: "bucket_ref m k = Inr b" "b < length ess"
    by blast
  from assms(2) b obtain e where e: "find (\<lambda>x. e_key x = k) (ess ! b) = Some e" "e_val e = v0"
    by (auto simp: alook_def)
  from find_key_SomeD[OF e(1)] have e2: "e \<in> set (ess ! b)" "e_key e = k" by simp_all
  from split_list[OF e2(1)] obtain pre post where s: "ess ! b = pre @ e # post" by blast
  from hinv_entry_node[OF assms(1) b(2) e2(1)] obtain n where
    "load_node (e_addr e) m = Inr n" "entry_at m e n" by blast
  with b e e2 s show ?thesis by blast
qed

lemma insert_existing_hinv:
  assumes inv: "hinv m ess" and present: "alook m ess k = Some v0"
  shows "\<exists>m' ess'. insert_hm k v m = Some (Inr (False, m')) \<and> hinv m' ess' \<and>
           alook m' ess' = (alook m ess)(k \<mapsto> v)"
proof -
  note D = hinvD[OF inv]
  from alook_SomeD[OF inv present] obtain b e pre post n where
    b: "bucket_ref m k = Inr b" "b < length ess" and
    s: "ess ! b = pre @ e # post" and
    e: "e_key e = k" "load_node (e_addr e) m = Inr n" "entry_at m e n"
       "find (\<lambda>x. e_key x = k) (ess ! b) = Some e"
    by blast
  note f = find_node_hinv[OF inv b(2), of k]
  have en: "hnodes m (e_addr e) = Some n"
    using e(2) by (auto simp: load_node_def split: option.splits)
  have ev: "vals m (e_vaddr e) = Some (e_val e)" "value n = Some (e_vaddr e)"
    using e(3) by (auto simp: entry_at_def read_Value_def split: option.splits)
  define a where "a = hfresh m"
  define m' where "m' = m\<lparr>hfresh := Suc a, vals := (vals m)(a \<mapsto> v, e_vaddr e := None),
      hnodes := (hnodes m)(e_addr e \<mapsto> n\<lparr>value := Some a\<rparr>)\<rparr>"
  define e' where "e' = Entry (e_addr e) k a v"
  let ?es = "pre @ e' # post"
  let ?ess = "ess[b := ?es]"
  have inb: "x \<in> hentries ess" if "b' < length ess" "x \<in> set (ess ! b')" for x b'
    using that by (auto simp: hentries_def)
  have old: "e_addr x < a \<and> e_vaddr x < a" if "x \<in> hentries ess" for x
    using D(8)[OF that] by (simp add: a_def)
  have ein: "e \<in> set (ess ! b)" using s by simp
  have ea: "e_vaddr e \<noteq> a" using old[OF inb[OF b(2) ein]] by simp
  have run: "insert_hm k v m = Some (Inr (False, m'))"
    using b f e(4) en ev ea
    by (simp add: insert_hm_def insert_lookup_def on_ok_def insert_update_def
        new_Value_def store_node_def load_node_def delete_Value_def m'_def a_def Let_def)
  have p1: "length (buckets_m m') = length (buckets_m m)" "hasher_m m' = hasher_m m"
    "hfresh m' = Suc a" "size_m m' = size_m m" "load_head b' m' = load_head b' m" for b'
    by (simp_all add: m'_def load_head_def)
  have p3: "load_node x m' = load_node x m" if "x \<noteq> e_addr e" for x
    using that by (simp add: m'_def load_node_def)
  have p4: "read_Value y m' = read_Value y m" if "y \<noteq> a" "y \<noteq> e_vaddr e" for y
    using that by (simp add: m'_def read_Value_def)
  have p5: "load_node (e_addr e) m' = Inr (n\<lparr>value := Some a\<rparr>)" "read_Value a m' = Inr v"
    using ea by (simp_all add: m'_def load_node_def read_Value_def)
  have dk: "distinct (map e_key (pre @ e # post))" using D(6)[OF b(2)] s by simp
  have other: "load_node (e_addr x) m' = load_node (e_addr x) m \<and>
               read_Value (e_vaddr x) m' = read_Value (e_vaddr x) m"
    if "b' < length ess" "x \<in> set (ess ! b')" "x \<noteq> e" for b' x
  proof -
    have "e_addr x \<noteq> e_addr e"
      using hinv_same_addr[OF inv that(1,2) b(2) ein] that(3) by blast
    moreover have "e_vaddr x \<noteq> e_vaddr e"
      using D(7) inb[OF that(1,2)] inb[OF b(2) ein] that(3) by (auto dest: inj_onD)
    moreover have "e_vaddr x \<noteq> a" using old[OF inb[OF that(1,2)]] by simp
    ultimately show ?thesis using p3 p4 by simp
  qed
  have notin: "e \<notin> set pre" "e \<notin> set post" using dk by auto
  have seg: "hseg m' (load_head b m') ?es None"
  proof -
    from D(4)[OF b(2)] s obtain r where
      r: "hseg m (load_head b m) pre r" "hseg m r (e # post) None"
      by (auto simp: hseg_append)
    from r(2) e(2) have r2: "r = Some (e_addr e)" "hseg m (next_hm n) post None" by auto
    have 1: "hseg m' (load_head b m) pre r"
    proof (rule hseg_frame[OF r(1)])
      fix x assume "x \<in> set pre"
      then show "load_node (e_addr x) m' = load_node (e_addr x) m \<and>
                 read_Value (e_vaddr x) m' = read_Value (e_vaddr x) m"
        using other[OF b(2), of x] s notin by auto
    qed
    have 2: "hseg m' (next_hm n) post None"
    proof (rule hseg_frame[OF r2(2)])
      fix x assume "x \<in> set post"
      then show "load_node (e_addr x) m' = load_node (e_addr x) m \<and>
                 read_Value (e_vaddr x) m' = read_Value (e_vaddr x) m"
        using other[OF b(2), of x] s notin by auto
    qed
    have "hseg m' r (e' # post) None"
      using r2(1) p5 2 e(1,3) by (simp add: e'_def entry_at_def)
    with 1 show ?thesis by (auto simp: hseg_append p1)
  qed
  have keys: "e_key ` set ?es = e_key ` set (ess ! b)"
    using s e(1) by (simp add: e'_def)
  have "hkeys ?ess = hkeys ess"
    unfolding hkeys_update[OF b(2), of ?es] keys by (rule hkeys_split[OF b(2), symmetric])
  then have size: "size_m m' = of_nat (card (hkeys ?ess))"
    using D(9) p1(4) by simp
  have inv': "hinv m' ?ess"
  proof (rule hinv_update[OF inv b(2) p1(1,2)])
    show "load_head b' m' = load_head b' m" if "b' < length ess" "b' \<noteq> b" for b'
      by (rule p1)
    show "load_node (e_addr x) m' = load_node (e_addr x) m \<and>
          read_Value (e_vaddr x) m' = read_Value (e_vaddr x) m"
      if "b' < length ess" "b' \<noteq> b" "x \<in> set (ess ! b')" for b' x
    proof -
      have "x \<noteq> e" using hinv_same_addr[OF inv that(1,3) b(2) ein] that(2) by blast
      then show ?thesis using other[OF that(1,3)] by simp
    qed
    show "hseg m' (load_head b m') ?es None" by (rule seg)
    show "bucket_ref m (e_key x) = Inr b" if "x \<in> set ?es" for x
      using that b(1) D(5)[OF b(2), of x] s by (auto simp: e'_def)
    show "distinct (map e_key ?es)" using dk e(1) by (simp add: e'_def)
    show "inj_on e_vaddr (set ?es)"
    proof -
      have "inj_on e_vaddr (set (ess ! b))"
        using D(7) inb[OF b(2)] by (auto intro: inj_on_subset)
      then have "inj_on e_vaddr (set pre \<union> set post)"
        using s by (auto intro: inj_on_subset)
      moreover have "e_vaddr e' \<notin> e_vaddr ` (set pre \<union> set post)"
        using old inb[OF b(2)] s by (fastforce simp: e'_def)
      ultimately show ?thesis by auto
    qed
    show "x \<in> set (ess ! b) \<or> hfresh m \<le> e_vaddr x" if "x \<in> set ?es" for x
      using that s by (auto simp: e'_def a_def)
    show "hfresh m \<le> hfresh m'" by (simp add: p1 a_def)
    show "e_addr x < hfresh m' \<and> e_vaddr x < hfresh m'" if "x \<in> set ?es" for x
    proof (cases "x = e'")
      case True
      then show ?thesis using old[OF inb[OF b(2) ein]] by (simp add: p1 e'_def)
    next
      case False
      then have "x \<in> set (ess ! b)" using that s by auto
      then show ?thesis using old[OF inb[OF b(2)], of x] by (simp add: p1)
    qed
    show "size_m m' = of_nat (card (hkeys ?ess))" by (rule size)
  qed
  have al: "alook m' ?ess = (alook m ess)(k \<mapsto> v)"
  proof (rule alook_update[OF inv b(2)])
    show "bucket_ref m' k' = bucket_ref m k'" for k'
      by (rule bucket_ref_frame[OF p1(1,2)])
    show "map_option e_val (find (\<lambda>x. e_key x = k') ?es) = ((alook m ess)(k \<mapsto> v)) k'"
      if "bucket_ref m k' = Inr b" for k'
    proof (cases "k' = k")
      case True
      have "e_key e' \<notin> e_key ` set pre" using dk e(1) by (auto simp: e'_def)
      from find_replace_hit[OF this, of post] True show ?thesis by (simp add: e'_def)
    next
      case False
      have "find (\<lambda>x. e_key x = k') ?es = find (\<lambda>x. e_key x = k') (pre @ e # post)"
        using False e(1) by (intro find_replace) (simp_all add: e'_def)
      then show ?thesis using False that s by (simp add: alook_def)
    qed
    show "((alook m ess)(k \<mapsto> v)) k' = alook m ess k'" if "bucket_ref m k' \<noteq> Inr b" for k'
      using that b(1) by auto
  qed
  from run inv' al show ?thesis by blast
qed

lemma load_node_SomeD: "load_node a m = Inr n \<Longrightarrow> hnodes m a = Some n"
  by (auto simp: load_node_def split: option.splits)

lemma erase_unlink_loop_walk:
  assumes "hseg m p pre (Some node)" "pre \<noteq> []"
    and "\<And>x. x \<in> set pre \<Longrightarrow> e_addr x \<noteq> node \<and> load_node (e_addr x) m1 = load_node (e_addr x) m"
    and "load_node node m1 = Inr nn"
  shows "erase_unlink_loop False m1 node p =
     Some (on_ok (store_node (e_addr (last pre)) (\<lambda>pn. pn\<lparr>next_hm := next_hm nn\<rparr>) m1)
             (\<lambda>m2. Inr (True, m2)))"
  using assms(1,2,3)
proof (induction pre arbitrary: p)
  case Nil
  then show ?case by simp
next
  case (Cons x pre)
  from Cons.prems(1) obtain xn where xn: "p = Some (e_addr x)" "load_node (e_addr x) m = Inr xn"
    "hseg m (next_hm xn) pre (Some node)"
    by (auto split: sum.splits)
  have x1: "load_node (e_addr x) m1 = Inr xn" "e_addr x \<noteq> node"
    using Cons.prems(3)[of x] xn(2) by simp_all
  show ?case
  proof (cases pre)
    case Nil
    then have "next_hm xn = Some node" using xn(3) by simp
    then show ?thesis using xn(1) x1 assms(4) Nil
      by (subst erase_unlink_loop.simps) (simp add: compare_exchange_weak_def)
  next
    case (Cons y ys)
    then have nx: "next_hm xn = Some (e_addr y)" using xn(3) by simp
    have "e_addr y \<noteq> node" using Cons.prems(3)[of y] Cons by simp
    moreover have "erase_unlink_loop False m1 node (next_hm xn) =
       Some (on_ok (store_node (e_addr (last pre)) (\<lambda>pn. pn\<lparr>next_hm := next_hm nn\<rparr>) m1)
             (\<lambda>m2. Inr (True, m2)))"
      using xn(3) Cons Cons.prems(3) by (intro Cons.IH) simp_all
    ultimately show ?thesis using xn(1) x1 nx Cons
      by (subst erase_unlink_loop.simps) simp
  qed
qed

lemma erase_finish_run:
  assumes "hnodes m2 node = Some nn" "value nn = Some p" "vals m2 p = Some v"
  shows "erase_finish node m2 =
     Inr (True, m2\<lparr>size_m := size_m m2 - 1, hnodes := (hnodes m2)(node := None),
                    vals := (vals m2)(p := None)\<rparr>)"
  using assms
  by (simp add: erase_finish_def on_ok_def load_node_def store_node_def delete_Value_def
      delete_Node_def Let_def)

lemma erase_present_run:
  assumes inv: "hinv m ess"
    and b: "bucket_ref m k = Inr b" "b < length ess"
    and s: "ess ! b = pre @ e # post"
    and e: "e_key e = k" "load_node (e_addr e) m = Inr n" "entry_at m e n"
       "find (\<lambda>x. e_key x = k) (ess ! b) = Some e"
  shows "\<exists>m'. erase [] k m = Some (Inr (True, m')) \<and>
     length (buckets_m m') = length (buckets_m m) \<and> hasher_m m' = hasher_m m \<and>
     hfresh m' = hfresh m \<and> size_m m' = size_m m - 1 \<and>
     (\<forall>b'. b' \<noteq> b \<longrightarrow> load_head b' m' = load_head b' m) \<and>
     (\<forall>x. x \<noteq> e_addr e \<longrightarrow> x \<notin> e_addr ` set pre \<longrightarrow> load_node x m' = load_node x m) \<and>
     (\<forall>y. y \<noteq> e_vaddr e \<longrightarrow> read_Value y m' = read_Value y m) \<and>
     hseg m' (load_head b m') (pre @ post) None"
proof -
  note D = hinvD[OF inv]
  note f = find_node_hinv[OF inv b(2), of k]
  define node where "node = e_addr e"
  have bl: "b < length (buckets_m m)" using b(2) D(1) by simp
  have en: "hnodes m node = Some n" using load_node_SomeD[OF e(2)] by (simp add: node_def)
  have ev: "vals m (e_vaddr e) = Some (e_val e)" "value n = Some (e_vaddr e)" "\<not> marked n"
    using e(3) by (auto simp: entry_at_def read_Value_def split: option.splits)
  have ein: "e \<in> set (ess ! b)" using s by simp
  have inb: "x \<in> hentries ess" if "b' < length ess" "x \<in> set (ess ! b')" for x b'
    using that by (auto simp: hentries_def)
  have dk: "distinct (map e_key (pre @ e # post))" using D(6)[OF b(2)] s by simp
  have notin: "e \<notin> set pre" "e \<notin> set post" using dk by auto
  have diff: "e_addr x \<noteq> node \<and> e_vaddr x \<noteq> e_vaddr e" if "x \<in> set (ess ! b)" "x \<noteq> e" for x
  proof -
    have "e_addr x \<noteq> e_addr e"
      using hinv_same_addr[OF inv b(2) that(1) b(2) ein] that(2) by blast
    moreover have "e_vaddr x \<noteq> e_vaddr e"
      using D(7) inb[OF b(2) that(1)] inb[OF b(2) ein] that(2) by (auto dest: inj_onD)
    ultimately show ?thesis by (simp add: node_def)
  qed
  from D(4)[OF b(2)] s obtain r where
    r: "hseg m (load_head b m) pre r" "hseg m r (e # post) None"
    by (auto simp: hseg_append)
  from r(2) e(2) have r2: "r = Some node" "hseg m (next_hm n) post None"
    by (auto simp: node_def)
  define m1 where "m1 = m\<lparr>hnodes := (hnodes m)(node \<mapsto> n\<lparr>marked := True\<rparr>)\<rparr>"
  have m1: "load_node node m1 = Inr (n\<lparr>marked := True\<rparr>)" "load_head b m1 = load_head b m"
    "store_node node (\<lambda>n. n\<lparr>marked := True\<rparr>) m = Inr m1"
    using en by (simp_all add: m1_def load_node_def load_head_def store_node_def)
  have m1o: "load_node x m1 = load_node x m" if "x \<noteq> node" for x
    using that by (simp add: m1_def load_node_def)
  have start: "erase [] k m =
      (let head_v = load_head b m1
       in if head_v = Some node
          then map_option (\<lambda>r. on_ok r (erase_finish node))
                 (erase_head_cas_loop m1 b node head_v (next_hm n))
          else (case erase_unlink_loop False m1 node head_v of
                  None \<Rightarrow> None
                | Some (Inl e) \<Rightarrow> Some (Inl e)
                | Some (Inr (removed, m2)) \<Rightarrow>
                    if \<not> removed then erase_loop (tl []) m2 b k
                    else Some (erase_finish node m2)))"
    using b(1) f e(4) e(2) ev(3) m1
    by (simp add: erase_def node_def[symmetric])
       (subst erase_loop.simps, simp add: node_def[symmetric] cong: if_cong)
  show ?thesis
  proof (cases pre)
    case Nil
    then have hd: "load_head b m = Some node" using r(1) r2(1) by simp
    define m2 where "m2 = store_head b (next_hm n) m1"
    have cas: "erase_head_cas_loop m1 b node (Some node) (next_hm n) = Some (Inr m2)"
      using hd m1(2)
      by (subst erase_head_cas_loop.simps) (simp add: compare_exchange_weak_def m2_def)
    define m' where "m' = m2\<lparr>size_m := size_m m2 - 1, hnodes := (hnodes m2)(node := None),
                    vals := (vals m2)(e_vaddr e := None)\<rparr>"
    have fin: "erase_finish node m2 = Inr (True, m')"
      unfolding m'_def
      by (rule erase_finish_run[where nn="n\<lparr>marked := True\<rparr>" and v="e_val e"])
         (use ev in \<open>simp_all add: m2_def m1_def store_head_def\<close>)
    have run: "erase [] k m = Some (Inr (True, m'))"
      using start hd m1(2) cas fin by (simp add: on_ok_def)
    have props: "length (buckets_m m') = length (buckets_m m)" "hasher_m m' = hasher_m m"
      "hfresh m' = hfresh m" "size_m m' = size_m m - 1"
      by (simp_all add: m'_def m2_def m1_def store_head_def)
    have heads: "load_head b' m' = load_head b' m" if "b' \<noteq> b" for b'
      using that by (simp add: m'_def m2_def m1_def store_head_def load_head_def)
    have hb: "load_head b m' = next_hm n"
      using bl by (simp add: m'_def m2_def m1_def store_head_def load_head_def)
    have ln: "load_node x m' = load_node x m" if "x \<noteq> node" for x
      using that by (simp add: m'_def m2_def m1_def store_head_def load_node_def)
    have rv: "read_Value y m' = read_Value y m" if "y \<noteq> e_vaddr e" for y
      using that by (simp add: m'_def m2_def m1_def store_head_def read_Value_def)
    have "hseg m' (next_hm n) post None"
    proof (rule hseg_frame[OF r2(2)])
      fix x assume "x \<in> set post"
      then have "x \<in> set (ess ! b)" "x \<noteq> e" using s notin by auto
      from diff[OF this] show "load_node (e_addr x) m' = load_node (e_addr x) m \<and>
                 read_Value (e_vaddr x) m' = read_Value (e_vaddr x) m"
        using ln rv by simp
    qed
    then have seg: "hseg m' (load_head b m') (pre @ post) None" using hb Nil by simp
    show ?thesis using run props heads ln rv seg unfolding node_def by blast
  next
    case (Cons y ys)
    then have pne: "pre \<noteq> []" by simp
    define l where "l = last pre"
    define pre' where "pre' = butlast pre"
    have pre: "pre = pre' @ [l]" using pne by (simp add: l_def pre'_def)
    have lin: "l \<in> set (ess ! b)" "l \<noteq> e" using s pre notin by auto
    from r(1) pre obtain t where t: "hseg m (load_head b m) pre' t" "hseg m t [l] r"
      by (auto simp: hseg_append)
    from t(2) obtain ln where ln: "load_node (e_addr l) m = Inr ln" "next_hm ln = r"
      "entry_at m l ln" "t = Some (e_addr l)"
      by (auto split: sum.splits)
    have la: "e_addr l \<noteq> node" using diff[OF lin] by simp
    have hdne: "load_head b m \<noteq> Some node"
    proof
      assume h: "load_head b m = Some node"
      from r(1) Cons have "load_head b m = Some (e_addr y)" by simp
      with h have "e_addr y = node" by simp
      moreover have "y \<in> set (ess ! b)" "y \<noteq> e" using s Cons notin by auto
      ultimately show False using diff by blast
    qed
    define m2 where "m2 = m1\<lparr>hnodes := (hnodes m1)(e_addr l \<mapsto> ln\<lparr>next_hm := next_hm n\<rparr>)\<rparr>"
    have st: "store_node (e_addr l) (\<lambda>pn. pn\<lparr>next_hm := next_hm (n\<lparr>marked := True\<rparr>)\<rparr>) m1 = Inr m2"
      using load_node_SomeD[OF ln(1)] la by (simp add: store_node_def m1_def m2_def)
    have walk: "erase_unlink_loop False m1 node (load_head b m) = Some (Inr (True, m2))"
    proof -
      have "erase_unlink_loop False m1 node (load_head b m) =
        Some (on_ok (store_node (e_addr (last pre)) (\<lambda>pn. pn\<lparr>next_hm := next_hm (n\<lparr>marked := True\<rparr>)\<rparr>) m1)
             (\<lambda>m2. Inr (True, m2)))"
      proof (rule erase_unlink_loop_walk[where m=m])
        show "hseg m (load_head b m) pre (Some node)" using r(1) r2(1) by simp
        show "pre \<noteq> []" by (rule pne)
        show "e_addr x \<noteq> node \<and> load_node (e_addr x) m1 = load_node (e_addr x) m"
          if "x \<in> set pre" for x
        proof -
          have "x \<in> set (ess ! b)" "x \<noteq> e" using that s notin by auto
          from diff[OF this] show ?thesis using m1o by simp
        qed
        show "load_node node m1 = Inr (n\<lparr>marked := True\<rparr>)" by (rule m1(1))
      qed
      then show ?thesis using st by (simp add: l_def on_ok_def)
    qed
    define m' where "m' = m2\<lparr>size_m := size_m m2 - 1, hnodes := (hnodes m2)(node := None),
                    vals := (vals m2)(e_vaddr e := None)\<rparr>"
    have fin: "erase_finish node m2 = Inr (True, m')"
      unfolding m'_def
      by (rule erase_finish_run[where nn="n\<lparr>marked := True\<rparr>" and v="e_val e"])
         (use ev la in \<open>simp_all add: m2_def m1_def\<close>)
    have run: "erase [] k m = Some (Inr (True, m'))"
      using start hdne m1(2) walk fin by simp
    have props: "length (buckets_m m') = length (buckets_m m)" "hasher_m m' = hasher_m m"
      "hfresh m' = hfresh m" "size_m m' = size_m m - 1"
      by (simp_all add: m'_def m2_def m1_def)
    have heads: "load_head b' m' = load_head b' m" for b'
      by (simp add: m'_def m2_def m1_def load_head_def)
    have lnode: "load_node x m' = load_node x m" if "x \<noteq> node" "x \<noteq> e_addr l" for x
      using that by (simp add: m'_def m2_def m1_def load_node_def)
    have ll: "load_node (e_addr l) m' = Inr (ln\<lparr>next_hm := next_hm n\<rparr>)"
      using la by (simp add: m'_def m2_def m1_def load_node_def)
    have rv: "read_Value y m' = read_Value y m" if "y \<noteq> e_vaddr e" for y
      using that by (simp add: m'_def m2_def m1_def read_Value_def)
    have dpre: "distinct (map e_key (pre' @ [l]))" using dk pre by simp
    have fr: "load_node (e_addr x) m' = load_node (e_addr x) m \<and>
              read_Value (e_vaddr x) m' = read_Value (e_vaddr x) m"
      if "x \<in> set (ess ! b)" "x \<noteq> e" "x \<noteq> l" for x
    proof -
      have "e_addr x \<noteq> e_addr l"
        using hinv_same_addr[OF inv b(2) that(1) b(2) lin(1)] that(3) by blast
      then show ?thesis using diff[OF that(1,2)] lnode rv by simp
    qed
    have 1: "hseg m' (load_head b m) pre' (Some (e_addr l))"
    proof (rule hseg_frame[where m=m])
      show "hseg m (load_head b m) pre' (Some (e_addr l))" using t(1) ln(4) by simp
      fix x assume x: "x \<in> set pre'"
      then have "x \<in> set (ess ! b)" "x \<noteq> e" using s pre notin by auto
      moreover have "x \<noteq> l" using dpre x by auto
      ultimately show "load_node (e_addr x) m' = load_node (e_addr x) m \<and>
                 read_Value (e_vaddr x) m' = read_Value (e_vaddr x) m"
        by (rule fr)
    qed
    have 2: "hseg m' (next_hm n) post None"
    proof (rule hseg_frame[OF r2(2)])
      fix x assume x: "x \<in> set post"
      then have "x \<in> set (ess ! b)" "x \<noteq> e" using s notin by auto
      moreover have "x \<noteq> l" using dk pre x by auto
      ultimately show "load_node (e_addr x) m' = load_node (e_addr x) m \<and>
                 read_Value (e_vaddr x) m' = read_Value (e_vaddr x) m"
        by (rule fr)
    qed
    have "read_Value (e_vaddr l) m' = read_Value (e_vaddr l) m"
      using diff[OF lin] rv by simp
    then have 3: "hseg m' (Some (e_addr l)) [l] (next_hm n)"
      using ll ln(3) by (simp add: entry_at_def)
    have "hseg m' (Some (e_addr l)) ([l] @ post) None"
      using 2 3 unfolding hseg_append by blast
    then have "hseg m' (load_head b m) (pre' @ ([l] @ post)) None"
      using 1 unfolding hseg_append by blast
    then have seg: "hseg m' (load_head b m') (pre @ post) None"
      using heads pre by simp
    have lnode': "load_node x m' = load_node x m" if "x \<noteq> e_addr e" "x \<notin> e_addr ` set pre" for x
      using that lnode[of x] pre by (auto simp: node_def)
    show ?thesis using run props heads lnode' rv seg by blast
  qed
qed

lemma erase_present_hinv:
  assumes inv: "hinv m ess" and present: "alook m ess k = Some v0"
  shows "\<exists>m' ess'. erase [] k m = Some (Inr (True, m')) \<and> hinv m' ess' \<and>
           alook m' ess' = (alook m ess)(k := None)"
proof -
  note D = hinvD[OF inv]
  from alook_SomeD[OF inv present] obtain b e pre post n where
    b: "bucket_ref m k = Inr b" "b < length ess" and
    s: "ess ! b = pre @ e # post" and
    e: "e_key e = k" "load_node (e_addr e) m = Inr n" "entry_at m e n"
       "find (\<lambda>x. e_key x = k) (ess ! b) = Some e"
    by blast
  from erase_present_run[OF inv b s e] obtain m' where
    run: "erase [] k m = Some (Inr (True, m'))" and
    p1: "length (buckets_m m') = length (buckets_m m)" "hasher_m m' = hasher_m m" and
    p2: "hfresh m' = hfresh m" "size_m m' = size_m m - 1" and
    heads: "\<And>b'. b' \<noteq> b \<Longrightarrow> load_head b' m' = load_head b' m" and
    ln: "\<And>x. x \<noteq> e_addr e \<Longrightarrow> x \<notin> e_addr ` set pre \<Longrightarrow> load_node x m' = load_node x m" and
    rv: "\<And>y. y \<noteq> e_vaddr e \<Longrightarrow> read_Value y m' = read_Value y m" and
    seg: "hseg m' (load_head b m') (pre @ post) None"
    by blast
  let ?es = "pre @ post"
  let ?ess = "ess[b := ?es]"
  have ein: "e \<in> set (ess ! b)" using s by simp
  have inb: "x \<in> hentries ess" if "b' < length ess" "x \<in> set (ess ! b')" for x b'
    using that by (auto simp: hentries_def)
  have dk: "distinct (map e_key (pre @ e # post))" using D(6)[OF b(2)] s by simp
  have sub: "set ?es \<subseteq> set (ess ! b)" using s by auto
  have kin: "k \<in> hkeys ess" using hkeys_bucket[OF inv b(1)] ein e(1) by auto
  have "e_key e \<notin> e_key ` set pre" "e_key e \<notin> e_key ` set post" using dk by auto
  then have "k \<notin> e_key ` set ?es" using e(1) by (simp add: image_Un)
  moreover have "e_key ` set (ess ! b) = insert k (e_key ` set ?es)"
    using s e(1) by (simp add: image_Un insert_commute)
  ultimately have "e_key ` set ?es = e_key ` set (ess ! b) - {k}" by simp
  then have "hkeys ?ess = hkeys ess - {k}"
    using hkeys_update[OF b(2), of ?es] hkeys_split[OF b(2)] hkeys_others[OF inv b(1)]
    by auto
  then have "card (hkeys ?ess) = card (hkeys ess) - 1"
    using kin finite_hkeys[of ess] by simp
  moreover have "1 \<le> card (hkeys ess)"
    using kin finite_hkeys[of ess] by (metis One_nat_def Suc_leI card_gt_0_iff empty_iff)
  ultimately have size: "size_m m' = of_nat (card (hkeys ?ess))"
    using D(9) p2(2) by (simp add: of_nat_diff)
  have inv': "hinv m' ?ess"
  proof (rule hinv_update[OF inv b(2) p1])
    show "load_head b' m' = load_head b' m" if "b' < length ess" "b' \<noteq> b" for b'
      using heads that by simp
    show "load_node (e_addr x) m' = load_node (e_addr x) m \<and>
          read_Value (e_vaddr x) m' = read_Value (e_vaddr x) m"
      if "b' < length ess" "b' \<noteq> b" "x \<in> set (ess ! b')" for b' x
    proof -
      have ne: "y \<in> set (ess ! b) \<Longrightarrow> e_addr x \<noteq> e_addr y" for y
        using hinv_same_addr[OF inv that(1,3) b(2)] that(2) by blast
      have "e_addr x \<noteq> e_addr e" using ne[OF ein] .
      moreover have "e_addr x \<notin> e_addr ` set pre" using ne s by auto
      moreover have "x \<noteq> e" using ne[OF ein] by blast
      then have "e_vaddr x \<noteq> e_vaddr e"
        using D(7) inb[OF that(1,3)] inb[OF b(2) ein] by (auto dest: inj_onD)
      ultimately show ?thesis using ln rv by simp
    qed
    show "hseg m' (load_head b m') ?es None" by (rule seg)
    show "bucket_ref m (e_key x) = Inr b" if "x \<in> set ?es" for x
      using that D(5)[OF b(2), of x] sub by auto
    show "distinct (map e_key ?es)" using dk by simp
    show "inj_on e_vaddr (set ?es)"
    proof -
      have "inj_on e_vaddr (set (ess ! b))"
        using D(7) inb[OF b(2)] by (auto intro: inj_on_subset)
      then show ?thesis using sub by (rule inj_on_subset)
    qed
    show "x \<in> set (ess ! b) \<or> hfresh m \<le> e_vaddr x" if "x \<in> set ?es" for x
      using that sub by auto
    show "hfresh m \<le> hfresh m'" by (simp add: p2)
    show "e_addr x < hfresh m' \<and> e_vaddr x < hfresh m'" if "x \<in> set ?es" for x
    proof -
      have "x \<in> hentries ess" using that sub inb[OF b(2)] by auto
      then show ?thesis using D(8) p2(1) by simp
    qed
    show "size_m m' = of_nat (card (hkeys ?ess))" by (rule size)
  qed
  have al: "alook m' ?ess = (alook m ess)(k := None)"
  proof (rule alook_update[OF inv b(2)])
    show "bucket_ref m' k' = bucket_ref m k'" for k'
      by (rule bucket_ref_frame[OF p1])
    show "map_option e_val (find (\<lambda>x. e_key x = k') ?es) = ((alook m ess)(k := None)) k'"
      if "bucket_ref m k' = Inr b" for k'
    proof (cases "k' = k")
      case True
      then show ?thesis using find_remove_hit[OF dk] e(1) by simp
    next
      case False
      have "find (\<lambda>x. e_key x = k') ?es = find (\<lambda>x. e_key x = k') (pre @ e # post)"
        using False e(1) by (intro find_remove) simp
      then show ?thesis using False that s by (simp add: alook_def)
    qed
    show "((alook m ess)(k := None)) k' = alook m ess k'" if "bucket_ref m k' \<noteq> Inr b" for k'
      using that b(1) by auto
  qed
  from run inv' al show ?thesis by blast
qed

lemma hrep_size: "hrep m A \<Longrightarrow> size_hm m = of_nat (card (dom A))"
  using size_hinv by (auto simp: hrep_def)

lemma hrep_finite: "hrep m A \<Longrightarrow> finite (dom A)"
  using dom_alook finite_hkeys by (fastforce simp: hrep_def)

lemma insert_hrep:
  assumes "hrep m A"
  shows "\<exists>m'. insert_hm k v m = Some (Inr (A k = None, m')) \<and> hrep m' (A(k \<mapsto> v))"
proof -
  from assms obtain ess where i: "hinv m ess" "alook m ess = A" by (auto simp: hrep_def)
  show ?thesis
  proof (cases "A k")
    case None
    with insert_new_hinv[OF i(1), of k v] i(2) show ?thesis
      unfolding hrep_def by auto
  next
    case (Some v0)
    with insert_existing_hinv[OF i(1), of k v0 v] i(2) show ?thesis
      unfolding hrep_def by auto
  qed
qed

lemma erase_hrep:
  assumes "hrep m A"
  shows "\<exists>m'. erase [] k m = Some (Inr (A k \<noteq> None, m')) \<and> hrep m' (A(k := None))"
proof -
  from assms obtain ess where i: "hinv m ess" "alook m ess = A" by (auto simp: hrep_def)
  show ?thesis
  proof (cases "A k")
    case None
    then have "A(k := None) = A" by auto
    with erase_absent_hinv[OF i(1), of k] i(2) None assms show ?thesis by auto
  next
    case (Some v0)
    with erase_present_hinv[OF i(1), of k v0] i(2) show ?thesis
      unfolding hrep_def by auto
  qed
qed

lemma get_hrep: "hrep m A \<Longrightarrow> get k m = Some (Inr (A k))"
  using get_hinv by (auto simp: hrep_def)

lemma contains_hrep: "hrep m A \<Longrightarrow> contains k m = Some (Inr (A k \<noteq> None))"
  using contains_hinv by (auto simp: hrep_def)

lemma apply_map_op_model:
  assumes "hrep m A"
  shows "\<exists>m'. apply_map_op op m = Some (Inr (fst (model_op op A), m')) \<and>
              hrep m' (snd (model_op op A))"
proof (cases op)
  case (Insert k v)
  from insert_hrep[OF assms, of k v] obtain m' where
    "insert_hm k v m = Some (Inr (A k = None, m'))" "hrep m' (A(k \<mapsto> v))" by blast
  then show ?thesis using Insert by (intro exI[of _ m']) (simp add: on_ok_def)
next
  case (Get k)
  then show ?thesis using assms get_hrep[OF assms, of k]
    by (intro exI[of _ m]) (simp add: on_ok_def)
next
  case (Erase k)
  from erase_hrep[OF assms, of k] obtain m' where
    "erase [] k m = Some (Inr (A k \<noteq> None, m'))" "hrep m' (A(k := None))" by blast
  then show ?thesis using Erase by (intro exI[of _ m']) (simp add: on_ok_def)
next
  case (Contains k)
  then show ?thesis using assms contains_hrep[OF assms, of k]
    by (intro exI[of _ m]) (simp add: on_ok_def)
next
  case MapSize
  then show ?thesis using assms hrep_size[OF assms] by (intro exI[of _ m]) simp
next
  case MapEmpty
  then show ?thesis using assms hrep_size[OF assms]
    by (intro exI[of _ m]) (simp add: empty_hm_def)
qed

lemma run_map_ops_model:
  "hrep m A \<Longrightarrow>
   \<exists>m'. run_ops apply_map_op ops m = Some (Inr (fst (model_run ops A), m')) \<and>
        hrep m' (snd (model_run ops A))"
proof (induction ops arbitrary: m A)
  case Nil
  then show ?case by simp
next
  case (Cons op ops)
  from apply_map_op_model[OF Cons.prems, of op] obtain m1 where
    1: "apply_map_op op m = Some (Inr (fst (model_op op A), m1))" "hrep m1 (snd (model_op op A))"
    by blast
  from Cons.IH[OF 1(2)] obtain m2 where
    2: "run_ops apply_map_op ops m1 = Some (Inr (fst (model_run ops (snd (model_op op A))), m2))"
       "hrep m2 (snd (model_run ops (snd (model_op op A))))" by blast
  show ?case using 1 2 by (intro exI[of _ m2]) (simp add: split_beta)
qed

lemma dom_model_op: "dom (snd (model_op op A)) = live_step (dom A) op"
  by (cases op) auto

lemma dom_model_run: "dom (snd (model_run ops A)) = foldl live_step (dom A) ops"
  by (induction ops arbitrary: A) (simp_all add: split_beta dom_model_op)

lemma card_foldl_live_step: "finite S \<Longrightarrow> card (foldl live_step S ops) \<le> card S + length ops"
proof (induction ops arbitrary: S)
  case Nil
  then show ?case by simp
next
  case (Cons op ops)
  have f: "finite (live_step S op)" using Cons.prems by (cases op) simp_all
  have "card (live_step S op) \<le> Suc (card S)"
    using Cons.prems by (cases op) (simp_all add: card_insert_if le_SucI card_Diff1_le)
  with Cons.IH[OF f] show ?case by simp
qed

lemma reachable_hrep:
  assumes "bucket_count \<noteq> 0"
  shows "\<exists>m. run_ops apply_map_op ops (LockFreeHashMap_ctor bucket_count hash) =
               Some (Inr (fst (model_run ops Map.empty), m)) \<and>
             hrep m (snd (model_run ops Map.empty))"
  by (rule run_map_ops_model[OF hrep_ctor[OF assms]])

lemma hrep_bucket_index:
  assumes "hrep m A"
  shows "buckets_size m \<noteq> 0 \<and> (\<exists>i. bucket_index m k = Inr i \<and> unat i < length (buckets_m m))"
proof -
  from assms obtain ess where i: "hinv m ess" by (auto simp: hrep_def)
  from hinv_bucket_ref[OF i, of k] hinvD(1)[OF i]
  obtain b where "bucket_ref m k = Inr b" "b < length (buckets_m m)" by auto
  then show ?thesis
    by (auto simp: bucket_ref_def bucket_index_def on_ok_def split: if_splits)
qed

text \<open>
  Claim C10. When the map was constructed with \<open>bucket_count \<ge> 1\<close>, then after any
  sequence of calls the divisor \<^verbatim>\<open>buckets_.size()\<close> of the bucket-index computation is not
  zero and the index is less than the number of buckets, so the access to the bucket
  vector is in range. The constructor has no guard: with \<open>bucket_count = 0\<close> it builds a
  map with no buckets, on which the modulo in \<open>bucket_index\<close>, and with it \<open>insert\<close>,
  \<open>get\<close>, \<open>erase\<close> and \<open>contains\<close>, divides by zero.
\<close>

theorem bucket_index_in_range:
  "(bucket_count \<noteq> 0 \<longrightarrow>
      (\<exists>rs m. run_ops apply_map_op (ops :: ('k, 'v) map_op list)
                (LockFreeHashMap_ctor bucket_count hash) = Some (Inr (rs, m)) \<and>
         buckets_size m \<noteq> 0 \<and>
         (\<exists>i. bucket_index m k = Inr i \<and> unat i < length (buckets_m m)))) \<and>
   buckets_m (LockFreeHashMap_ctor 0 hash :: ('k, 'v) LockFreeHashMap) = [] \<and>
   bucket_index (LockFreeHashMap_ctor 0 hash :: ('k, 'v) LockFreeHashMap) k = Inl DivisionByZero \<and>
   insert_hm k (v :: 'v) (LockFreeHashMap_ctor 0 hash) = Some (Inl DivisionByZero) \<and>
   get k (LockFreeHashMap_ctor 0 hash :: ('k, 'v) LockFreeHashMap) = Some (Inl DivisionByZero) \<and>
   erase sp k (LockFreeHashMap_ctor 0 hash :: ('k, 'v) LockFreeHashMap) = Some (Inl DivisionByZero) \<and>
   contains k (LockFreeHashMap_ctor 0 hash :: ('k, 'v) LockFreeHashMap) = Some (Inl DivisionByZero)"
proof -
  have a: "\<exists>rs m. run_ops apply_map_op ops (LockFreeHashMap_ctor bucket_count hash) = Some (Inr (rs, m)) \<and>
         buckets_size m \<noteq> 0 \<and>
         (\<exists>i. bucket_index m k = Inr i \<and> unat i < length (buckets_m m))"
    if "bucket_count \<noteq> 0"
  proof -
    from reachable_hrep[OF that, of ops hash] obtain m :: "('k, 'v) LockFreeHashMap" where
      m: "run_ops apply_map_op ops (LockFreeHashMap_ctor bucket_count hash) =
               Some (Inr (fst (model_run ops Map.empty), m))" "hrep m (snd (model_run ops Map.empty))"
      by blast
    from hrep_bucket_index[OF m(2), of k] m(1) show ?thesis by blast
  qed
  have z: "bucket_index (LockFreeHashMap_ctor 0 hash :: ('k, 'v) LockFreeHashMap) k = Inl DivisionByZero"
    by (simp add: bucket_index_def buckets_size_def LockFreeHashMap_ctor_def)
  then have r: "bucket_ref (LockFreeHashMap_ctor 0 hash :: ('k, 'v) LockFreeHashMap) k = Inl DivisionByZero"
    by (simp add: bucket_ref_def on_ok_def)
  have "buckets_m (LockFreeHashMap_ctor 0 hash :: ('k, 'v) LockFreeHashMap) = []"
    by (simp add: LockFreeHashMap_ctor_def)
  with a z r show ?thesis
    by (simp add: insert_hm_def insert_lookup_def get_def erase_def contains_def)
qed

text \<open>
  The hypothesis of C10 holds for a map of four buckets after an insert and an erase.
\<close>

theorem bucket_index_in_range_witness:
  "(4 :: size_t) \<noteq> 0 \<and>
   (\<exists>rs m. run_ops apply_map_op [Insert (7 :: nat) (70 :: nat), Erase 3]
              (LockFreeHashMap_ctor 4 of_nat) = Some (Inr (rs, m)) \<and>
      buckets_size m \<noteq> 0 \<and>
      (\<exists>i. bucket_index m (7 :: nat) = Inr i \<and> unat i < length (buckets_m m)))"
proof -
  have h: "(4 :: size_t) \<noteq> 0" by simp
  from bucket_index_in_range[where bucket_count=4 and hash=of_nat and k="7 :: nat"
      and ops="[Insert (7 :: nat) (70 :: nat), Erase 3]"] h
  show ?thesis by blast
qed

text \<open>
  Runs without a spurious failure. After any single-threaded sequence of \<open>insert\<close>, \<open>get\<close>,
  \<open>erase\<close>, \<open>contains\<close> (and \<open>size\<close>, \<open>empty\<close>) calls on a map constructed with at least one
  bucket, in which no exchange of \<open>erase\<close> fails spuriously (the calls are \<open>erase []\<close>),
  \<open>size()\<close> is the number of live keys: as a \<open>size_t\<close> without condition, and as a natural
  number for every sequence of fewer than \<open>2^64\<close> calls, which cannot overflow the counter.
  \<open>empty()\<close> is true exactly when \<open>size()\<close> is \<open>0\<close>. An \<open>insert\<close> returns true exactly when
  the key is not live and only then adds one to \<open>size()\<close>; an \<open>erase\<close> without spurious
  failure returns true exactly when the key is live and only then subtracts one.
\<close>

lemma size_counts_live_keys_without_spurious_failure:
  fixes ops :: "('k, 'v) map_op list"
  assumes "bucket_count \<noteq> 0"
  shows "\<exists>rs m. run_ops apply_map_op ops (LockFreeHashMap_ctor bucket_count hash) = Some (Inr (rs, m)) \<and>
     size_hm m = of_nat (card (live_keys ops)) \<and>
     (length ops < 2 ^ 64 \<longrightarrow> unat (size_hm m) = card (live_keys ops)) \<and>
     (empty_hm m \<longleftrightarrow> size_hm m = 0) \<and>
     (\<forall>k v. \<exists>b m'. insert_hm k v m = Some (Inr (b, m')) \<and> (b \<longleftrightarrow> k \<notin> live_keys ops) \<and>
                   size_hm m' = (if b then size_hm m + 1 else size_hm m)) \<and>
     (\<forall>k. \<exists>b m'. erase [] k m = Some (Inr (b, m')) \<and> (b \<longleftrightarrow> k \<in> live_keys ops) \<and>
                 size_hm m' = (if b then size_hm m - 1 else size_hm m))"
proof -
  define A :: "'k \<rightharpoonup> 'v" where "A = snd (model_run ops Map.empty)"
  from reachable_hrep[OF assms, of ops hash] obtain m :: "('k, 'v) LockFreeHashMap" where
    m: "run_ops apply_map_op ops (LockFreeHashMap_ctor bucket_count hash) =
               Some (Inr (fst (model_run ops Map.empty), m))" "hrep m A"
    unfolding A_def by blast
  have d: "dom A = live_keys ops"
    using dom_model_run[of ops Map.empty] by (simp add: A_def live_keys_def)
  have fin: "finite (dom A)" by (rule hrep_finite[OF m(2)])
  have s: "size_hm m = of_nat (card (live_keys ops))"
    using hrep_size[OF m(2)] d by simp
  have "card (live_keys ops) \<le> length ops"
    using card_foldl_live_step[of "{}" ops] by (simp add: live_keys_def)
  then have u: "unat (size_hm m) = card (live_keys ops)" if "length ops < 2 ^ 64"
    using that s by (simp add: unat_of_nat)
  have ins: "\<exists>b m'. insert_hm k v m = Some (Inr (b, m')) \<and> (b \<longleftrightarrow> k \<notin> live_keys ops) \<and>
                   size_hm m' = (if b then size_hm m + 1 else size_hm m)" for k v
  proof -
    from insert_hrep[OF m(2), of k v] obtain m' where
      m': "insert_hm k v m = Some (Inr (A k = None, m'))" "hrep m' (A(k \<mapsto> v))" by blast
    have "size_hm m' = (if A k = None then size_hm m + 1 else size_hm m)"
      using hrep_size[OF m'(2)] hrep_size[OF m(2)] fin
      by (auto simp: card_insert_if domIff insert_absorb)
    moreover have "A k = None \<longleftrightarrow> k \<notin> live_keys ops" using d by (auto simp: domIff)
    ultimately show ?thesis using m'(1) by auto
  qed
  have era: "\<exists>b m'. erase [] k m = Some (Inr (b, m')) \<and> (b \<longleftrightarrow> k \<in> live_keys ops) \<and>
                 size_hm m' = (if b then size_hm m - 1 else size_hm m)" for k
  proof -
    from erase_hrep[OF m(2), of k] obtain m' where
      m': "erase [] k m = Some (Inr (A k \<noteq> None, m'))" "hrep m' (A(k := None))" by blast
    have in_dom: "A k \<noteq> None \<longleftrightarrow> k \<in> dom A" by (auto simp: domIff)
    have "size_hm m' = (if A k \<noteq> None then size_hm m - 1 else size_hm m)"
    proof (cases "k \<in> dom A")
      case True
      then have "1 \<le> card (dom A)" using fin by (metis One_nat_def Suc_leI card_gt_0_iff empty_iff)
      then show ?thesis using hrep_size[OF m'(2)] hrep_size[OF m(2)] fin True in_dom
        by (simp add: of_nat_diff)
    next
      case False
      then show ?thesis using hrep_size[OF m'(2)] hrep_size[OF m(2)] in_dom by simp
    qed
    moreover have "A k \<noteq> None \<longleftrightarrow> k \<in> live_keys ops" using d in_dom by simp
    ultimately show ?thesis using m'(1) by auto
  qed
  show ?thesis using m(1) s u ins era by (auto simp: empty_hm_def)
qed

text \<open>
  Claim C3. In any state reached by a single-threaded sequence of calls: after
  \<open>insert(k, v)\<close>, \<open>get(k)\<close> returns \<open>v\<close>; after \<open>insert(k, v1)\<close> and \<open>insert(k, v2)\<close>,
  \<open>get(k)\<close> returns \<open>v2\<close>, the second insert returns false (updated), and the first
  returns true (inserted) exactly when \<open>k\<close> was not in the map before (\<open>contains(k)\<close>
  false), in particular on a newly constructed map.
\<close>

theorem insert_then_get:
  fixes ops :: "('k, 'v) map_op list"
  assumes "bucket_count \<noteq> 0"
  shows "\<exists>rs m. run_ops apply_map_op ops (LockFreeHashMap_ctor bucket_count hash) = Some (Inr (rs, m)) \<and>
    (\<exists>b m1. run_ops apply_map_op [Insert k v, Get k] m =
              Some (Inr ([Inserted b, Got (Some v)], m1))) \<and>
    (\<exists>c m2. run_ops apply_map_op [Contains k, Insert k v1, Insert k v2, Get k] m =
              Some (Inr ([Found c, Inserted (\<not> c), Inserted False, Got (Some v2)], m2))) \<and>
    (\<exists>m3. run_ops apply_map_op [Insert k v1, Insert k v2, Get k]
              (LockFreeHashMap_ctor bucket_count hash :: ('k, 'v) LockFreeHashMap) =
              Some (Inr ([Inserted True, Inserted False, Got (Some v2)], m3)))"
proof -
  define A :: "'k \<rightharpoonup> 'v" where "A = snd (model_run ops Map.empty)"
  from reachable_hrep[OF assms, of ops hash] obtain m :: "('k, 'v) LockFreeHashMap" where
    m: "run_ops apply_map_op ops (LockFreeHashMap_ctor bucket_count hash) =
               Some (Inr (fst (model_run ops Map.empty), m))" "hrep m A"
    unfolding A_def by blast
  from run_map_ops_model[OF m(2), of "[Insert k v, Get k]"]
  have 1: "\<exists>b m1. run_ops apply_map_op [Insert k v, Get k] m =
              Some (Inr ([Inserted b, Got (Some v)], m1))"
    by (auto simp: split_beta)
  from run_map_ops_model[OF m(2), of "[Contains k, Insert k v1, Insert k v2, Get k]"]
  have 2: "\<exists>c m2. run_ops apply_map_op [Contains k, Insert k v1, Insert k v2, Get k] m =
              Some (Inr ([Found c, Inserted (\<not> c), Inserted False, Got (Some v2)], m2))"
    by (auto simp: split_beta)
  from run_map_ops_model[OF hrep_ctor[OF assms, of hash], of "[Insert k v1, Insert k v2, Get k]"]
  have 3: "\<exists>m3. run_ops apply_map_op [Insert k v1, Insert k v2, Get k]
              (LockFreeHashMap_ctor bucket_count hash :: ('k, 'v) LockFreeHashMap) =
              Some (Inr ([Inserted True, Inserted False, Got (Some v2)], m3))"
    by (auto simp: split_beta)
  from m(1) 1 2 3 show ?thesis by blast
qed

text \<open>
  The scenario of the specification: \<open>insert(1,100); insert(1,200); get(1)\<close> on a new map
  of eight buckets.
\<close>

theorem insert_then_get_witness:
  "(8 :: size_t) \<noteq> 0 \<and>
   (\<exists>m3. run_ops apply_map_op [Insert (1 :: nat) (100 :: nat), Insert 1 200, Get 1]
            (LockFreeHashMap_ctor 8 of_nat) =
          Some (Inr ([Inserted True, Inserted False, Got (Some 200)], m3)))"
proof -
  have h: "(8 :: size_t) \<noteq> 0" by simp
  from insert_then_get[OF h, where hash=of_nat and ops="[] :: (nat, nat) map_op list"
      and k=1 and ?v1.0=100 and ?v2.0=200]
  show ?thesis using h by blast
qed

text \<open>
  Runs without a spurious failure. In any state reached by such a run: after
  \<open>insert(k, v)\<close>, \<open>erase(k)\<close> returns true, \<open>contains(k)\<close> then returns false and a second
  \<open>erase(k)\<close> returns false, when no exchange of these calls fails spuriously. \<open>erase\<close> of
  an absent key is no error, whatever the exchanges do: it returns false and leaves the
  map, and so \<open>size()\<close>, as it was; an \<open>erase\<close> without spurious failure returns what
  \<open>contains\<close> returned just before and changes \<open>size()\<close> only when that was true.
\<close>

lemma erase_after_insert_without_spurious_failure:
  fixes ops :: "('k, 'v) map_op list"
  assumes "bucket_count \<noteq> 0"
  shows "\<exists>rs m. run_ops apply_map_op ops (LockFreeHashMap_ctor bucket_count hash) = Some (Inr (rs, m)) \<and>
    (\<exists>b m1. run_ops apply_map_op [Insert k v, Erase k, Contains k, Erase k] m =
              Some (Inr ([Inserted b, Erased True, Found False, Erased False], m1))) \<and>
    (\<exists>c s m2. run_ops apply_map_op [Contains k, MapSize, Erase k, MapSize] m =
              Some (Inr ([Found c, MapSizeIs s, Erased c, MapSizeIs (if c then s - 1 else s)], m2))) \<and>
    (contains k m = Some (Inr False) \<longrightarrow> (\<forall>sp. erase sp k m = Some (Inr (False, m))))"
proof -
  define A :: "'k \<rightharpoonup> 'v" where "A = snd (model_run ops Map.empty)"
  from reachable_hrep[OF assms, of ops hash] obtain m :: "('k, 'v) LockFreeHashMap" where
    m: "run_ops apply_map_op ops (LockFreeHashMap_ctor bucket_count hash) =
               Some (Inr (fst (model_run ops Map.empty), m))" "hrep m A"
    unfolding A_def by blast
  have fin: "finite (dom A)" by (rule hrep_finite[OF m(2)])
  from run_map_ops_model[OF m(2), of "[Insert k v, Erase k, Contains k, Erase k]"]
  have 1: "\<exists>b m1. run_ops apply_map_op [Insert k v, Erase k, Contains k, Erase k] m =
              Some (Inr ([Inserted b, Erased True, Found False, Erased False], m1))"
    by (auto simp: split_beta)
  have sz: "(of_nat (card (dom A - {k})) :: size_t) =
            (if A k \<noteq> None then of_nat (card (dom A)) - 1 else of_nat (card (dom A)))"
  proof (cases "k \<in> dom A")
    case True
    then have "1 \<le> card (dom A)" using fin by (metis One_nat_def Suc_leI card_gt_0_iff empty_iff)
    then show ?thesis using True fin by (auto simp: of_nat_diff)
  next
    case False
    then show ?thesis by (auto simp: domIff)
  qed
  have mr: "fst (model_run [Contains k, MapSize, Erase k, MapSize] A) =
      [Found (A k \<noteq> None), MapSizeIs (of_nat (card (dom A))), Erased (A k \<noteq> None),
       MapSizeIs (if A k \<noteq> None then of_nat (card (dom A)) - 1 else of_nat (card (dom A)))]"
    using sz by (simp add: split_beta)
  from run_map_ops_model[OF m(2), of "[Contains k, MapSize, Erase k, MapSize]"]
  obtain m2 where "run_ops apply_map_op [Contains k, MapSize, Erase k, MapSize] m =
      Some (Inr (fst (model_run [Contains k, MapSize, Erase k, MapSize] A), m2))"
    by blast
  then have 2: "\<exists>c s m2. run_ops apply_map_op [Contains k, MapSize, Erase k, MapSize] m =
              Some (Inr ([Found c, MapSizeIs s, Erased c, MapSizeIs (if c then s - 1 else s)], m2))"
    unfolding mr by blast
  have 3: "erase sp k m = Some (Inr (False, m))" if "contains k m = Some (Inr False)" for sp
  proof -
    from m(2) obtain ess where i: "hinv m ess" "alook m ess = A" by (auto simp: hrep_def)
    from that contains_hinv[OF i(1), of k] have "alook m ess k = None" by simp
    then show ?thesis by (rule erase_absent_hinv[OF i(1)])
  qed
  from m(1) 1 2 3 show ?thesis by blast
qed

section \<open>A spurious failure in erase\<close>

lemmas hm_eval =
  insert_lookup_def bucket_ref_def bucket_index_def buckets_size_def LockFreeHashMap_ctor_def
  find_node_def find_node_loop.simps load_head_def load_node_def store_node_def store_head_def
  insert_link_def insert_update_def new_Node_def new_Value_def insert_cas_loop.simps
  compare_exchange_weak_def on_ok_def Let_def read_Value_def delete_Value_def delete_Node_def
  get_def contains_def erase_def erase_loop.simps erase_head_cas_loop.simps
  erase_unlink_loop.simps erase_finish_def size_hm_def empty_hm_def

text \<open>
  In a map of four buckets whose only node is marked, no key is found.
\<close>

lemma only_marked_node_contains:
  fixes m :: "(nat, 'v) LockFreeHashMap"
  assumes "length (buckets_m m) = 4" "hasher_m m = of_nat"
    and "load_head 0 m = None" "load_head 1 m = Some a" "load_head 2 m = None"
        "load_head 3 m = None"
    and "hnodes m a = Some n" "marked n" "next_hm n = None"
  shows "contains k m = Some (Inr False)"
proof -
  have "unat ((of_nat k :: size_t) mod 4) < 4"
    by (simp add: unat_mod)
  then consider "unat ((of_nat k :: size_t) mod 4) = 0" | "unat ((of_nat k :: size_t) mod 4) = 1"
    | "unat ((of_nat k :: size_t) mod 4) = 2" | "unat ((of_nat k :: size_t) mod 4) = 3"
    by linarith
  then show ?thesis
    using assms
    by cases
      (simp_all add: contains_def bucket_ref_def bucket_index_def buckets_size_def
         find_node_def find_node_loop.simps load_node_def on_ok_def)
qed

text \<open>
  Claim C2 (fails on the code). \<open>size()\<close> should be the number of live keys after any
  single-threaded sequence of calls. On a new map of four buckets with the hash
  \<open>of_nat\<close>, \<open>insert(1, 10)\<close> and \<open>insert(5, 50)\<close> put both keys into bucket \<open>1\<close>, the node of
  key \<open>5\<close> at the head and the node of key \<open>1\<close> behind it; \<open>size()\<close> is \<open>2\<close>. In the call
  \<open>erase(1)\<close> the exchange on the predecessor (line 193) fails spuriously: the node is
  marked already, the loop starts again, \<open>find_node\<close> passes over the marked node, and
  the call returns false without the decrement of line 210. After it \<open>contains(1)\<close> is
  false and \<open>get(1)\<close> finds nothing, \<open>contains(5)\<close> is true, the marked node is still
  linked, and \<open>size()\<close> is \<open>2\<close> with one key in the map; another \<open>erase(1)\<close> returns false
  and changes nothing. After \<open>erase(5)\<close>, which succeeds, no key at all is contained, and
  \<open>size()\<close> is \<open>1\<close> and \<open>empty()\<close> false.
\<close>

theorem spurious_erase_size_drift:
  "(case run_ops apply_map_op [Insert 1 10, Insert 5 50]
           (LockFreeHashMap_ctor 4 of_nat :: (nat, nat) LockFreeHashMap) of
      Some (Inr (rs, m)) \<Rightarrow>
        rs = [Inserted True, Inserted True] \<and> size_hm m = 2 \<and>
        (case erase [True] 1 m of
           Some (Inr (erased, m1)) \<Rightarrow>
             \<not> erased \<and> size_hm m1 = 2 \<and>
             contains 1 m1 = Some (Inr False) \<and> get 1 m1 = Some (Inr None) \<and>
             contains 5 m1 = Some (Inr True) \<and>
             load_head 1 m1 = Some 2 \<and>
             map_option next_hm (hnodes m1 2) = Some (Some 0) \<and>
             map_option key (hnodes m1 0) = Some 1 \<and>
             map_option marked (hnodes m1 0) = Some True \<and>
             erase [] 1 m1 = Some (Inr (False, m1)) \<and>
             (case erase [] 5 m1 of
                Some (Inr (erased5, m2)) \<Rightarrow>
                  erased5 \<and> size_hm m2 = 1 \<and> \<not> empty_hm m2 \<and>
                  (\<forall>k. contains k m2 = Some (Inr False))
              | _ \<Rightarrow> False)
         | _ \<Rightarrow> False)
    | _ \<Rightarrow> False)"
proof -
  define m :: "(nat, nat) LockFreeHashMap" where
    "m = (case run_ops apply_map_op [Insert 1 10, Insert 5 50] (LockFreeHashMap_ctor 4 of_nat) of
            Some (Inr (rs, m)) \<Rightarrow> m)"
  define m1 where "m1 = (case erase [True] 1 m of Some (Inr (erased, m1)) \<Rightarrow> m1)"
  define m2 where "m2 = (case erase [] 5 m1 of Some (Inr (erased, m2)) \<Rightarrow> m2)"
  note ev = m2_def m1_def m_def hm_eval insert_hm_def
  have r: "run_ops apply_map_op [Insert 1 10, Insert 5 50] (LockFreeHashMap_ctor 4 of_nat) =
             Some (Inr ([Inserted True, Inserted True], m))"
    by (simp add: ev)
  have e1: "erase [True] 1 m = Some (Inr (False, m1))"
    by (simp add: ev)
  have e5: "erase [] 5 m1 = Some (Inr (True, m2))"
    by (simp add: ev)
  have p0: "size_hm m = 2"
    by (simp add: ev)
  have p1: "size_hm m1 = 2" "contains 1 m1 = Some (Inr False)" "get 1 m1 = Some (Inr None)"
    "contains 5 m1 = Some (Inr True)" "load_head 1 m1 = Some 2"
    "map_option next_hm (hnodes m1 2) = Some (Some 0)" "map_option key (hnodes m1 0) = Some 1"
    "map_option marked (hnodes m1 0) = Some True" "erase [] 1 m1 = Some (Inr (False, m1))"
    by (simp_all add: ev)
  have p2: "size_hm m2 = 1" "\<not> empty_hm m2"
    by (simp_all add: ev)
  have s2: "length (buckets_m m2) = 4" "hasher_m m2 = of_nat" "load_head 0 m2 = None"
    "load_head 1 m2 = Some 0" "load_head 2 m2 = None" "load_head 3 m2 = None"
    "hnodes m2 0 = Some \<lparr>key = 1, value = Some 1, next_hm = None, marked = True\<rparr>"
    by (simp_all add: ev)
  have all: "\<forall>k. contains k m2 = Some (Inr False)"
    using only_marked_node_contains[OF s2] by simp
  show ?thesis
    unfolding r using p0 e1 p1 e5 p2 all by simp
qed

text \<open>
  Claim C4 (fails on the code). After \<open>insert(k, v)\<close>, \<open>erase(k)\<close> should return true. On
  the same map, holding the keys \<open>1\<close> and \<open>5\<close> in bucket \<open>1\<close> with key \<open>1\<close> behind the head:
  \<open>insert(1, 11)\<close> updates the value (it returns false), \<open>contains(1)\<close> is true and
  \<open>size()\<close> is \<open>2\<close>; the call \<open>erase(1)\<close> in which the exchange on the predecessor fails
  spuriously returns false. After it \<open>contains(1)\<close> is false, \<open>size()\<close> is still \<open>2\<close>, and a
  second \<open>erase(1)\<close> returns false.
\<close>

theorem erase_after_update_fails:
  "(case run_ops apply_map_op [Insert 1 10, Insert 5 50, Insert 1 11, Contains 1, MapSize]
           (LockFreeHashMap_ctor 4 of_nat :: (nat, nat) LockFreeHashMap) of
      Some (Inr (rs, m)) \<Rightarrow>
        rs = [Inserted True, Inserted True, Inserted False, Found True, MapSizeIs 2] \<and>
        (case erase [True] 1 m of
           Some (Inr (erased, m1)) \<Rightarrow>
             \<not> erased \<and> contains 1 m1 = Some (Inr False) \<and> size_hm m1 = 2 \<and>
             erase [] 1 m1 = Some (Inr (False, m1))
         | _ \<Rightarrow> False)
    | _ \<Rightarrow> False)"
  by (simp add: hm_eval insert_hm_def)

section \<open>Interleavings of two inserts\<close>

text \<open>The parts of \<open>insert\<close>, run by one thread without interruption, are \<open>insert\<close>.\<close>

lemma insert_steps_sequential:
  "run_inserts [0, 0] [InsertStart k v] m =
     map_option (\<lambda>r. on_ok r (\<lambda>(b, m'). Inr ([InsertReturned b], m'))) (insert_hm k v m)"
proof (cases "insert_lookup k m")
  case None
  then show ?thesis by (simp add: insert_hm_def)
next
  case (Some r)
  show ?thesis
  proof (cases r)
    case (Inl e)
    then show ?thesis using Some by (simp add: insert_hm_def on_ok_def)
  next
    case (Inr be)
    obtain bucket existing where be: "be = (bucket, existing)" by (cases be)
    show ?thesis
    proof (cases existing)
      case None
      show ?thesis
      proof (cases "insert_link bucket k v m")
        case None
        then show ?thesis using Some Inr be \<open>existing = None\<close>
          by (simp add: insert_hm_def on_ok_def)
      next
        case (Some r2)
        then show ?thesis using \<open>insert_lookup k m = Some r\<close> Inr be \<open>existing = None\<close>
          by (cases r2) (auto simp: insert_hm_def on_ok_def)
      qed
    next
      case (Some a)
      then show ?thesis using \<open>insert_lookup k m = Some r\<close> Inr be
        by (cases "insert_update a v m") (auto simp: insert_hm_def on_ok_def)
    qed
  qed
qed

text \<open>
  Claim C5 (fails on the code). Two concurrent \<open>insert\<close> calls for the same absent key
  should return one "inserted" and one "updated" and leave a single entry. In the
  interleaving where both threads finish \<open>find_node\<close> before either links its node, both
  calls return true, \<open>size()\<close> is \<open>2\<close>, and the chain of bucket \<open>1\<close> holds two nodes with
  key \<open>1\<close> (at addresses \<open>2\<close> and \<open>0\<close>): \<open>get\<close> sees the value of the thread that linked
  last, and after one successful \<open>erase\<close> the key is still found, with the other value.
\<close>

theorem concurrent_insert_duplicates:
  "(case duplicate_insert_run of
      Some (Inr (calls, m)) \<Rightarrow>
        calls = [InsertReturned True, InsertReturned True] \<and> size_hm m = 2 \<and>
        load_head 1 m = Some 2 \<and>
        map_option key (hnodes m 2) = Some 1 \<and> map_option next_hm (hnodes m 2) = Some (Some 0) \<and>
        map_option key (hnodes m 0) = Some 1 \<and> map_option next_hm (hnodes m 0) = Some None \<and>
        get 1 m = Some (Inr (Some 20)) \<and>
        (case erase [] 1 m of
           Some (Inr (erased, m')) \<Rightarrow>
             erased \<and> contains 1 m' = Some (Inr True) \<and> get 1 m' = Some (Inr (Some 10)) \<and>
             size_hm m' = 1
         | _ \<Rightarrow> False)
    | _ \<Rightarrow> False)"
  unfolding duplicate_insert_run_def
  by (simp add: hm_eval)

section \<open>Verification of the thread pool\<close>

lemmas queue_eval =
  LockFreeQueue_ctor_def allocate_node_def new_T_def store_data_def store_next_def
  load_next_def load_data_def read_T_def delete_T_def deallocate_node_def enqueue_def
  empty_def on_ok_def Let_def

lemmas pool_eval =
  start_def ThreadPool_ctor_def submit_def worker_step_def wait_step_def invoke_task_def
  future_get_def set_worker_def active_tasks_def queued_tasks_def approximate_size_def

lemma replicate_next: "replicate (numeral k) x = x # replicate (pred_numeral k) x"
  by (simp add: numeral_eq_Suc)


text \<open>
  Claim C6 (fails on the code). When \<open>wait()\<close> returns, every work unit submitted before
  should have run and \<open>active_tasks()\<close> should be \<open>0\<close>. For every number of workers and
  every work unit: the client submits the unit and calls \<open>wait\<close>, which finds no active
  task and leaves its first loop; worker \<open>0\<close> then takes the unit from the queue (the loop
  test and the seven statements of \<open>dequeue\<close>) and increments the counter; \<open>wait\<close> finds the
  queue empty and returns. At that moment the future of the unit is not ready, the
  worker is only about to call the unit, \<open>queued_tasks()\<close> is \<open>0\<close> and \<open>active_tasks()\<close> is
  \<open>1\<close>.
\<close>

theorem wait_returns_early:
  "(case run_events
          ([Submit w, CallWait, WaitStep] @ replicate 9 (WorkerStep 0) @ [WaitStep])
          (start n :: ('e, 'r) system) of
      Inl _ \<Rightarrow> False
    | Inr s \<Rightarrow>
        futures s = [0] \<and> caller s = Some WaitReturned \<and> future_get 0 (pool s) = None \<and>
        active_tasks (pool s) = 1 \<and> queued_tasks (pool s) = Some (Inr 0) \<and>
        workers_m (pool s) ! 0 = AtCall 0)"
proof -
  have "0 < unat (if n = 0 then 1 else n)" by (simp add: unat_gt_0)
  then show ?thesis
    by (simp add: replicate_next pool_eval queue_eval approximate_size_loop.simps)
qed

text \<open>
  The path of a failure through one worker. On a pool of one worker, for every exception
  \<open>e\<close> and every second work unit \<open>g\<close>: after the unit throwing \<open>e\<close> was submitted and the
  worker went once round its loop, and \<open>g\<close> was submitted and the worker went round again,
  the first future holds \<open>e\<close>, the second the outcome of \<open>g\<close>, the worker is at the loop
  test and the stop flag is not set. \<open>packaged_task\<close> keeps the exception away from
  \<open>worker_loop\<close>.
\<close>

lemma failure_then_success_round:
  "(case run_events
            ([Submit (\<lambda>_. Inl e)] @ replicate 11 (WorkerStep 0) @
             [Submit g] @ replicate 11 (WorkerStep 0))
            (start 1 :: ('e, 'r) system) of
      Inl _ \<Rightarrow> False
    | Inr s \<Rightarrow>
        futures s = [0, 1] \<and> future_get 0 (pool s) = Some (Inl e) \<and>
        future_get 1 (pool s) = Some (g ()) \<and> workers_m (pool s) = [AtLoopTest] \<and>
        \<not> stop_m (pool s) \<and> active_tasks (pool s) = 0)"
  by (simp add: replicate_next pool_eval queue_eval)

text \<open>
  Claim C7 (fails on the code). A work unit that throws should deliver that failure to
  its future, with no worker dying and the pool still usable. On a pool of two workers
  (the pool of the test ThreadPoolExceptionHandling), for every exception \<open>e\<close>: the client
  submits the unit throwing \<open>e\<close>; worker \<open>0\<close> passes the loop test and, inside \<open>dequeue\<close>,
  loads \<open>head_m\<close> and \<open>head->next\<close>; worker \<open>1\<close> does the same and holds the same two
  pointers; worker \<open>0\<close> finishes its \<open>dequeue\<close> (it moves the task out, deletes the data
  object at address \<open>2\<close>, advances the head and frees the old head node); worker \<open>1\<close> loads
  \<open>next->data\<close>, which still holds the address \<open>2\<close>. In this state the unit has not run and
  its future is not ready, and the next step of worker \<open>1\<close>, the move out of \<open>*data\<close>, reads
  the deleted object: the execution has undefined behaviour. \<open>dequeue\<close> takes the head
  without a compare-and-swap, so that two consumers can take the same node.
\<close>

theorem two_workers_dequeue_same_node:
  "(case run_events
          ([Submit (\<lambda>_. Inl e)] @ replicate 3 (WorkerStep 0) @ replicate 3 (WorkerStep 1) @
           replicate 5 (WorkerStep 0) @ [WorkerStep 1])
          (start 2 :: ('e, 'r) system) of
      Inl _ \<Rightarrow> False
    | Inr s \<Rightarrow>
        futures s = [0] \<and> future_get 0 (pool s) = None \<and>
        workers_m (pool s) = [AtIncrement 0, AtDequeue (DequeueMove 0 1 2)] \<and>
        cells (task_queue_m (pool s)) 2 = None \<and>
        exec_event (WorkerStep 1) s = Inl InvalidAccess) \<and>
   run_events
     ([Submit (\<lambda>_. Inl e)] @ replicate 3 (WorkerStep 0) @ replicate 3 (WorkerStep 1) @
      replicate 5 (WorkerStep 0) @ replicate 2 (WorkerStep 1))
     (start 2 :: ('e, 'r) system) = Inl InvalidAccess"
  by (simp add: replicate_next pool_eval queue_eval)

end
